theory Spec2Isabelle
  imports Main "HOL-Library.Sublist"
begin

section \<open>Relay expression functors: the memoised mutator and the counting visitor\<close>

text \<open>
  A shallow embedding of \<^verbatim>\<open>src/relay/ir/expr_functor.cc\<close>.  Expression and type
  handles are references into a store of immutable nodes; two handles are
  \<^verbatim>\<open>same_as\<close> each other exactly when they are the same reference.  The mutator's
  \<^verbatim>\<open>memo_\<close> and the visitor's \<^verbatim>\<open>visit_counter_\<close> are maps keyed by reference.
  Every function that the C++ code runs for its effect on \<^verbatim>\<open>this\<close> takes the
  state and returns the new one; a failed \<^verbatim>\<open>CHECK\<close> is the error value \<open>Fatal\<close>.
\<close>

subsection \<open>Nodes, handles and the store\<close>

type_synonym ref = nat

text \<open>A \<^verbatim>\<open>Type\<close> handle may be undefined (\<open>None\<close>); \<^verbatim>\<open>defined()\<close> is \<open>\<noteq> None\<close>.\<close>

type_synonym ty = "ref option"

type_synonym attrs = nat

text \<open>
  Modelled from the spec: the container \<^verbatim>\<open>tvm::Array\<close> is declared outside the
  source file.  It is a handle like every other (section 6, the identity-equality
  primitive: two handles are identical when they reference the same underlying object):
  \<open>array_node\<close> is the identity of the container object the handle points to and
  \<open>array_data\<close> its elements.  \<^verbatim>\<open>tvm::Array<T> xs;\<close> builds a new, empty container
  object; \<^verbatim>\<open>push_back\<close> on that sole handle appends in place; \<^verbatim>\<open>same_as\<close> compares
  the identity of the container objects, not their elements.
\<close>

datatype 'a array = Array (array_node: nat) (array_data: "'a list")

definition array_same_as :: "'a array \<Rightarrow> 'a array \<Rightarrow> bool" where
  "array_same_as a b \<longleftrightarrow> array_node a = array_node b"

definition push_back :: "'a array \<Rightarrow> 'a \<Rightarrow> 'a array" where
  "push_back a x = Array (array_node a) (array_data a @ [x])"

text \<open>
  The node kinds with their fields, each in the order of the arguments of its
  \<^verbatim>\<open>make\<close>.  The last two are the kinds of type nodes that the code distinguishes
  (\<^verbatim>\<open>Downcast<TypeVar>\<close>): a type variable, and any other type.
\<close>

datatype node =
    VarNode string ty
  | ConstantNode nat
  | GlobalVarNode string
  | OpNode string
  | TupleNode "ref array"
  | FunctionNode "ref array" ref ty "ref array" attrs
  | CallNode ref "ref array" attrs "ty array"
  | LetNode ref ref ref
  | IfNode ref ref ref
  | TupleGetItemNode ref int
  | TypeVarNode string
  | OtherTypeNode nat

datatype error = Fatal | OutOfFuel

text \<open>
  The state one mutator pass works on: the store of nodes (a node's reference is its
  index), the next unused container identity, the memo cache \<^verbatim>\<open>memo_\<close> and the
  state that a concrete pass (a subclass) adds.
\<close>

record 'u mstate =
  heap :: "node list"
  next_array :: nat
  memo :: "ref \<rightharpoonup> ref"
  user :: 'u

type_synonym 'u mres = "error + ref \<times> 'u mstate"
type_synonym 'u mutate_fn = "ref \<Rightarrow> 'u mstate \<Rightarrow> 'u mres"
type_synonym 'u type_fn = "ty \<Rightarrow> 'u mstate \<Rightarrow> error + ty \<times> 'u mstate"

text \<open>
  Modelled from the spec: the node constructors (\<^verbatim>\<open>VarNode::make\<close>, \<^verbatim>\<open>TupleNode::make\<close>,
  ...) are external (section 6): a constructed node is a new object, identity-different
  from every existing one.  Here it is stored at the first unused reference.
\<close>

definition make_node :: "node \<Rightarrow> 'u mstate \<Rightarrow> ref \<times> 'u mstate" where
  "make_node nd st = (length (heap st), st\<lparr>heap := heap st @ [nd]\<rparr>)"

definition Array_new :: "'u mstate \<Rightarrow> 'a array \<times> 'u mstate" where
  "Array_new st = (Array (next_array st) [], st\<lparr>next_array := Suc (next_array st)\<rparr>)"

text \<open>
  Modelled from the spec: \<^verbatim>\<open>Downcast\<close> is declared outside the source file.  Section 7:
  a required downcast that fails is fatal, reported immediately, never silently coerced.
\<close>

definition Downcast_Var :: "ref \<Rightarrow> 'u mstate \<Rightarrow> error + ref" where
  "Downcast_Var r st =
     (if r < length (heap st)
      then (case heap st ! r of VarNode name_hint type_annotation \<Rightarrow> Inr r | _ \<Rightarrow> Inl Fatal)
      else Inl Fatal)"

definition Downcast_TypeVar :: "ty \<Rightarrow> 'u mstate \<Rightarrow> error + ref" where
  "Downcast_TypeVar t st =
     (case t of
        None \<Rightarrow> Inl Fatal
      | Some r \<Rightarrow>
          if r < length (heap st)
          then (case heap st ! r of TypeVarNode name \<Rightarrow> Inr r | _ \<Rightarrow> Inl Fatal)
          else Inl Fatal)"

subsection \<open>ExprMutator: the kind-specific rewrites\<close>

text \<open>
  Each \<^verbatim>\<open>VisitExpr_\<close> overload takes what it reaches through \<^verbatim>\<open>this\<close> as parameters:
  \<open>visit_type\<close> stands for the virtual \<^verbatim>\<open>this->VisitType\<close> and \<open>mutate\<close> for
  \<^verbatim>\<open>this->Mutate\<close>.  \<open>op\<close> is the reference of the node being rewritten
  (\<^verbatim>\<open>GetRef<Expr>(op)\<close>), followed by the node's fields.
\<close>

definition ExprMutator_VisitExpr_Var ::
  "'u type_fn \<Rightarrow> ref \<Rightarrow> string \<Rightarrow> ty \<Rightarrow> 'u mstate \<Rightarrow> 'u mres" where
  "ExprMutator_VisitExpr_Var visit_type op name_hint type_annotation st =
     (if type_annotation \<noteq> None then
        (case visit_type type_annotation st of
           Inl err \<Rightarrow> Inl err
         | Inr (type, st1) \<Rightarrow>
             if type_annotation \<noteq> type then Inr (make_node (VarNode name_hint type) st1)
             else Inr (op, st1))
      else Inr (op, st))"

definition ExprMutator_VisitExpr_Constant :: "ref \<Rightarrow> 'u mstate \<Rightarrow> 'u mres" where
  "ExprMutator_VisitExpr_Constant op st = Inr (op, st)"

definition ExprMutator_VisitExpr_GlobalVar :: "ref \<Rightarrow> 'u mstate \<Rightarrow> 'u mres" where
  "ExprMutator_VisitExpr_GlobalVar op st = Inr (op, st)"

definition ExprMutator_VisitExpr_Op :: "ref \<Rightarrow> 'u mstate \<Rightarrow> 'u mres" where
  "ExprMutator_VisitExpr_Op op st = Inr (op, st)"

text \<open>
  The loop of the Tuple rewrite, and of the arguments of the Call rewrite: mutate the
  element, push the result, and fold \<^verbatim>\<open>new.same_as(old)\<close> into the flag.
\<close>

fun Mutate_each ::
  "'u mutate_fn \<Rightarrow> ref list \<Rightarrow> ref array \<Rightarrow> bool \<Rightarrow> 'u mstate \<Rightarrow>
     error + ref array \<times> bool \<times> 'u mstate" where
  "Mutate_each mutate [] new_fields unchanged st = Inr (new_fields, unchanged, st)"
| "Mutate_each mutate (field # rest) new_fields unchanged st =
     (case mutate field st of
        Inl err \<Rightarrow> Inl err
      | Inr (new_field, st1) \<Rightarrow>
          Mutate_each mutate rest (push_back new_fields new_field)
            (unchanged \<and> new_field = field) st1)"

definition ExprMutator_VisitExpr_Tuple ::
  "'u mutate_fn \<Rightarrow> ref \<Rightarrow> ref array \<Rightarrow> 'u mstate \<Rightarrow> 'u mres" where
  "ExprMutator_VisitExpr_Tuple mutate op op_fields st =
     (let (new_fields, st0) = Array_new st in
      case Mutate_each mutate (array_data op_fields) new_fields True st0 of
        Inl err \<Rightarrow> Inl err
      | Inr (new_fields, all_fields_unchanged, st1) \<Rightarrow>
          if all_fields_unchanged then Inr (op, st1)
          else Inr (make_node (TupleNode new_fields) st1))"

text \<open>The two loops of the Function rewrite, each with the flag it maintains.\<close>

fun Function_ty_params ::
  "'u type_fn \<Rightarrow> ref list \<Rightarrow> ref array \<Rightarrow> bool \<Rightarrow> 'u mstate \<Rightarrow>
     error + ref array \<times> bool \<times> 'u mstate" where
  "Function_ty_params visit_type [] ty_params all_ty_params_changed st =
     Inr (ty_params, all_ty_params_changed, st)"
| "Function_ty_params visit_type (ty_param # rest) ty_params all_ty_params_changed st =
     (case visit_type (Some ty_param) st of
        Inl err \<Rightarrow> Inl err
      | Inr (t, st1) \<Rightarrow>
          (case Downcast_TypeVar t st1 of
             Inl err \<Rightarrow> Inl err
           | Inr new_ty_param \<Rightarrow>
               Function_ty_params visit_type rest (push_back ty_params new_ty_param)
                 (all_ty_params_changed \<and> new_ty_param = ty_param) st1))"

fun Function_params ::
  "'u mutate_fn \<Rightarrow> ref list \<Rightarrow> ref array \<Rightarrow> bool \<Rightarrow> 'u mstate \<Rightarrow>
     error + ref array \<times> bool \<times> 'u mstate" where
  "Function_params mutate [] params all_params_changed st =
     Inr (params, all_params_changed, st)"
| "Function_params mutate (param # rest) params all_params_changed st =
     (case mutate param st of
        Inl err \<Rightarrow> Inl err
      | Inr (r, st1) \<Rightarrow>
          (case Downcast_Var r st1 of
             Inl err \<Rightarrow> Inl err
           | Inr new_param \<Rightarrow>
               Function_params mutate rest (push_back params new_param)
                 (all_params_changed \<and> param = new_param) st1))"

text \<open>
  The Function rewrite.  The two flags are computed by the loops and not read again:
  the final test compares the freshly built containers \<open>ty_params\<close> and \<open>params\<close>
  with the node's own by \<^verbatim>\<open>same_as\<close>.
\<close>

definition ExprMutator_VisitExpr_Function ::
  "'u type_fn \<Rightarrow> 'u mutate_fn \<Rightarrow> ref \<Rightarrow> ref array \<Rightarrow> ref \<Rightarrow> ty \<Rightarrow> ref array \<Rightarrow> attrs \<Rightarrow>
     'u mstate \<Rightarrow> 'u mres" where
  "ExprMutator_VisitExpr_Function visit_type mutate op op_params op_body op_ret_type
       op_type_params op_attrs st =
     (let (ty_params, st0) = Array_new st in
      case Function_ty_params visit_type (array_data op_type_params) ty_params True st0 of
        Inl err \<Rightarrow> Inl err
      | Inr (ty_params, all_ty_params_changed, st1) \<Rightarrow>
          (let (params, st2) = Array_new st1 in
           case Function_params mutate (array_data op_params) params True st2 of
             Inl err \<Rightarrow> Inl err
           | Inr (params, all_params_changed, st3) \<Rightarrow>
               (case visit_type op_ret_type st3 of
                  Inl err \<Rightarrow> Inl err
                | Inr (ret_type, st4) \<Rightarrow>
                    (case mutate op_body st4 of
                       Inl err \<Rightarrow> Inl err
                     | Inr (body, st5) \<Rightarrow>
                         if array_same_as ty_params op_type_params \<and>
                            array_same_as params op_params \<and>
                            ret_type = op_ret_type \<and>
                            body = op_body
                         then Inr (op, st5)
                         else Inr (make_node (FunctionNode params body ret_type ty_params op_attrs)
                                     st5)))))"

text \<open>The loop over the type arguments of a Call.\<close>

fun Call_ty_args ::
  "'u type_fn \<Rightarrow> ty list \<Rightarrow> ty array \<Rightarrow> bool \<Rightarrow> 'u mstate \<Rightarrow>
     error + ty array \<times> bool \<times> 'u mstate" where
  "Call_ty_args visit_type [] ty_args unchanged st = Inr (ty_args, unchanged, st)"
| "Call_ty_args visit_type (ty_arg # rest) ty_args unchanged st =
     (case visit_type ty_arg st of
        Inl err \<Rightarrow> Inl err
      | Inr (new_ty_arg, st1) \<Rightarrow>
          Call_ty_args visit_type rest (push_back ty_args new_ty_arg)
            (unchanged \<and> new_ty_arg = ty_arg) st1)"

definition ExprMutator_VisitExpr_Call ::
  "'u type_fn \<Rightarrow> 'u mutate_fn \<Rightarrow> ref \<Rightarrow> ref \<Rightarrow> ref array \<Rightarrow> attrs \<Rightarrow> ty array \<Rightarrow>
     'u mstate \<Rightarrow> 'u mres" where
  "ExprMutator_VisitExpr_Call visit_type mutate call_node op_op op_args op_attrs op_type_args st =
     (case mutate op_op st of
        Inl err \<Rightarrow> Inl err
      | Inr (new_op, st1) \<Rightarrow>
          (let (ty_args, st2) = Array_new st1 in
           case Call_ty_args visit_type (array_data op_type_args) ty_args (op_op = new_op) st2 of
             Inl err \<Rightarrow> Inl err
           | Inr (ty_args, unchanged, st3) \<Rightarrow>
               (let (call_args, st4) = Array_new st3 in
                case Mutate_each mutate (array_data op_args) call_args unchanged st4 of
                  Inl err \<Rightarrow> Inl err
                | Inr (call_args, unchanged, st5) \<Rightarrow>
                    if unchanged then Inr (call_node, st5)
                    else Inr (make_node (CallNode new_op call_args op_attrs ty_args) st5))))"

definition ExprMutator_VisitExpr_Let ::
  "'u mutate_fn \<Rightarrow> ref \<Rightarrow> ref \<Rightarrow> ref \<Rightarrow> ref \<Rightarrow> 'u mstate \<Rightarrow> 'u mres" where
  "ExprMutator_VisitExpr_Let mutate op op_var op_value op_body st =
     (case mutate op_var st of
        Inl err \<Rightarrow> Inl err
      | Inr (r, st1) \<Rightarrow>
          (case Downcast_Var r st1 of
             Inl err \<Rightarrow> Inl err
           | Inr var \<Rightarrow>
               (case mutate op_value st1 of
                  Inl err \<Rightarrow> Inl err
                | Inr (value, st2) \<Rightarrow>
                    (case mutate op_body st2 of
                       Inl err \<Rightarrow> Inl err
                     | Inr (body, st3) \<Rightarrow>
                         if var = op_var \<and> value = op_value \<and> body = op_body
                         then Inr (op, st3)
                         else Inr (make_node (LetNode var value body) st3)))))"

definition ExprMutator_VisitExpr_If ::
  "'u mutate_fn \<Rightarrow> ref \<Rightarrow> ref \<Rightarrow> ref \<Rightarrow> ref \<Rightarrow> 'u mstate \<Rightarrow> 'u mres" where
  "ExprMutator_VisitExpr_If mutate op op_cond op_true_branch op_false_branch st =
     (case mutate op_cond st of
        Inl err \<Rightarrow> Inl err
      | Inr (guard, st1) \<Rightarrow>
          (case mutate op_true_branch st1 of
             Inl err \<Rightarrow> Inl err
           | Inr (true_b, st2) \<Rightarrow>
               (case mutate op_false_branch st2 of
                  Inl err \<Rightarrow> Inl err
                | Inr (false_b, st3) \<Rightarrow>
                    if op_cond = guard \<and> op_true_branch = true_b \<and> op_false_branch = false_b
                    then Inr (op, st3)
                    else Inr (make_node (IfNode guard true_b false_b) st3))))"

definition ExprMutator_VisitExpr_TupleGetItem ::
  "'u mutate_fn \<Rightarrow> ref \<Rightarrow> ref \<Rightarrow> int \<Rightarrow> 'u mstate \<Rightarrow> 'u mres" where
  "ExprMutator_VisitExpr_TupleGetItem mutate g g_tuple g_index st =
     (case mutate g_tuple st of
        Inl err \<Rightarrow> Inl err
      | Inr (t, st1) \<Rightarrow>
          if g_tuple = t then Inr (g, st1)
          else Inr (make_node (TupleGetItemNode t g_index) st1))"

definition ExprMutator_VisitType :: "'u type_fn" where
  "ExprMutator_VisitType t st = Inr (t, st)"

subsection \<open>Dispatch and memoisation\<close>

text \<open>
  The overloads of \<^verbatim>\<open>VisitExpr_\<close> as one function of the node.  A type node is not an
  expression: there is no overload for it.
\<close>

fun ExprMutator_VisitExpr_node ::
  "'u type_fn \<Rightarrow> 'u mutate_fn \<Rightarrow> ref \<Rightarrow> node \<Rightarrow> 'u mstate \<Rightarrow> 'u mres" where
  "ExprMutator_VisitExpr_node visit_type mutate op (VarNode name_hint type_annotation) st =
     ExprMutator_VisitExpr_Var visit_type op name_hint type_annotation st"
| "ExprMutator_VisitExpr_node visit_type mutate op (ConstantNode data) st =
     ExprMutator_VisitExpr_Constant op st"
| "ExprMutator_VisitExpr_node visit_type mutate op (GlobalVarNode name_hint) st =
     ExprMutator_VisitExpr_GlobalVar op st"
| "ExprMutator_VisitExpr_node visit_type mutate op (OpNode name) st =
     ExprMutator_VisitExpr_Op op st"
| "ExprMutator_VisitExpr_node visit_type mutate op (TupleNode fs) st =
     ExprMutator_VisitExpr_Tuple mutate op fs st"
| "ExprMutator_VisitExpr_node visit_type mutate op (FunctionNode params body ret_type type_params a) st =
     ExprMutator_VisitExpr_Function visit_type mutate op params body ret_type type_params a st"
| "ExprMutator_VisitExpr_node visit_type mutate op (CallNode f args a type_args) st =
     ExprMutator_VisitExpr_Call visit_type mutate op f args a type_args st"
| "ExprMutator_VisitExpr_node visit_type mutate op (LetNode var value body) st =
     ExprMutator_VisitExpr_Let mutate op var value body st"
| "ExprMutator_VisitExpr_node visit_type mutate op (IfNode c t f) st =
     ExprMutator_VisitExpr_If mutate op c t f st"
| "ExprMutator_VisitExpr_node visit_type mutate op (TupleGetItemNode tuple index) st =
     ExprMutator_VisitExpr_TupleGetItem mutate op tuple index st"
| "ExprMutator_VisitExpr_node visit_type mutate op (TypeVarNode name) st = Inl Fatal"
| "ExprMutator_VisitExpr_node visit_type mutate op (OtherTypeNode k) st = Inl Fatal"

text \<open>
  A concrete pass is a subclass: it may override the type hook and the kind-specific
  rewrites.  The base class takes each from this file.
\<close>

record 'u mutator_class =
  VisitType :: "'u type_fn"
  VisitExpr_node :: "'u type_fn \<Rightarrow> 'u mutate_fn \<Rightarrow> ref \<Rightarrow> node \<Rightarrow> 'u mstate \<Rightarrow> 'u mres"

definition ExprMutator :: "'u mutator_class" where
  "ExprMutator = \<lparr>VisitType = ExprMutator_VisitType, VisitExpr_node = ExprMutator_VisitExpr_node\<rparr>"

text \<open>
  Modelled from the spec: \<^verbatim>\<open>ExprFunctor::VisitExpr\<close>, the dispatch core, is declared
  outside the source file.  Section 4.1: given a handle, determine its concrete kind and
  invoke the kind-specific handler of the active instance; a kind without a handler is
  fatal.  A handle that references no node has no kind.
\<close>

definition ExprFunctor_VisitExpr ::
  "'u mutator_class \<Rightarrow> 'u mutate_fn \<Rightarrow> ref \<Rightarrow> 'u mstate \<Rightarrow> 'u mres" where
  "ExprFunctor_VisitExpr cls mutate expr st =
     (if expr < length (heap st)
      then (case heap st ! expr of
              TypeVarNode name \<Rightarrow> Inl Fatal
            | OtherTypeNode k \<Rightarrow> Inl Fatal
            | nd \<Rightarrow> VisitExpr_node cls (VisitType cls) mutate expr nd st)
      else Inl Fatal)"

text \<open>\<^verbatim>\<open>ExprMutator::VisitExpr\<close>: the memo cache around the dispatch.\<close>

definition ExprMutator_VisitExpr ::
  "'u mutator_class \<Rightarrow> 'u mutate_fn \<Rightarrow> ref \<Rightarrow> 'u mstate \<Rightarrow> 'u mres" where
  "ExprMutator_VisitExpr cls mutate expr st =
     (case memo st expr of
        Some it \<Rightarrow> Inr (it, st)
      | None \<Rightarrow>
          (case ExprFunctor_VisitExpr cls mutate expr st of
             Inl err \<Rightarrow> Inl err
           | Inr (new_expr, st1) \<Rightarrow> Inr (new_expr, st1\<lparr>memo := (memo st1)(expr \<mapsto> new_expr)\<rparr>)))"

text \<open>
  Modelled from the spec: \<^verbatim>\<open>Mutate\<close> is declared outside the source file; it is the
  public operation \<^verbatim>\<open>mutate(expr)\<close> of section 4.3, the memoised \<^verbatim>\<open>VisitExpr\<close>.
  The recursion of the C++ code is on the call stack; here the first argument bounds its
  depth, and a traversal that needs a deeper stack ends in \<open>OutOfFuel\<close>.
\<close>

primrec Mutate :: "'u mutator_class \<Rightarrow> nat \<Rightarrow> 'u mutate_fn" where
  "Mutate cls 0 = (\<lambda>expr st. Inl OutOfFuel)"
| "Mutate cls (Suc n) = ExprMutator_VisitExpr cls (Mutate cls n)"

subsection \<open>ExprVisitor\<close>

text \<open>
  The state of one visitor: \<^verbatim>\<open>visit_counter_\<close> and the state that a concrete pass
  adds.  The counter's type is declared outside the source file; it is unbounded here.
  The visitor builds no node, so the store is a parameter \<open>H\<close> of the traversal.
\<close>

record 'u vstate =
  visit_counter :: "ref \<rightharpoonup> nat"
  visitor_user :: 'u

type_synonym 'u vres = "error + 'u vstate"
type_synonym 'u visit_fn = "ref \<Rightarrow> 'u vstate \<Rightarrow> 'u vres"
type_synonym 'u vtype_fn = "ty \<Rightarrow> 'u vstate \<Rightarrow> 'u vres"

definition ExprVisitor_VisitExpr_Var :: "'u vtype_fn \<Rightarrow> string \<Rightarrow> ty \<Rightarrow> 'u vstate \<Rightarrow> 'u vres" where
  "ExprVisitor_VisitExpr_Var visit_type name_hint type_annotation st =
     (if type_annotation \<noteq> None then visit_type type_annotation st else Inr st)"

definition ExprVisitor_VisitExpr_GlobalVar :: "'u vstate \<Rightarrow> 'u vres" where
  "ExprVisitor_VisitExpr_GlobalVar st = Inr st"

definition ExprVisitor_VisitExpr_Constant :: "'u vstate \<Rightarrow> 'u vres" where
  "ExprVisitor_VisitExpr_Constant st = Inr st"

text \<open>The loop \<^verbatim>\<open>for (auto x : xs) this->VisitExpr(x);\<close> of Tuple, Function and Call.\<close>

fun VisitExpr_each :: "'u visit_fn \<Rightarrow> ref list \<Rightarrow> 'u vstate \<Rightarrow> 'u vres" where
  "VisitExpr_each visit [] st = Inr st"
| "VisitExpr_each visit (x # rest) st =
     (case visit x st of
        Inl err \<Rightarrow> Inl err
      | Inr st1 \<Rightarrow> VisitExpr_each visit rest st1)"

fun VisitType_each :: "'u vtype_fn \<Rightarrow> ty list \<Rightarrow> 'u vstate \<Rightarrow> 'u vres" where
  "VisitType_each visit_type [] st = Inr st"
| "VisitType_each visit_type (ty_arg # rest) st =
     (case visit_type ty_arg st of
        Inl err \<Rightarrow> Inl err
      | Inr st1 \<Rightarrow> VisitType_each visit_type rest st1)"

definition ExprVisitor_VisitExpr_Tuple :: "'u visit_fn \<Rightarrow> ref array \<Rightarrow> 'u vstate \<Rightarrow> 'u vres" where
  "ExprVisitor_VisitExpr_Tuple visit op_fields st =
     VisitExpr_each visit (array_data op_fields) st"

definition ExprVisitor_VisitExpr_Function ::
  "'u visit_fn \<Rightarrow> ref array \<Rightarrow> ref \<Rightarrow> 'u vstate \<Rightarrow> 'u vres" where
  "ExprVisitor_VisitExpr_Function visit op_params op_body st =
     (case VisitExpr_each visit (array_data op_params) st of
        Inl err \<Rightarrow> Inl err
      | Inr st1 \<Rightarrow> visit op_body st1)"

definition ExprVisitor_VisitExpr_Call ::
  "'u vtype_fn \<Rightarrow> 'u visit_fn \<Rightarrow> ref \<Rightarrow> ty array \<Rightarrow> ref array \<Rightarrow> 'u vstate \<Rightarrow> 'u vres" where
  "ExprVisitor_VisitExpr_Call visit_type visit op_op op_type_args op_args st =
     (case visit op_op st of
        Inl err \<Rightarrow> Inl err
      | Inr st1 \<Rightarrow>
          (case VisitType_each visit_type (array_data op_type_args) st1 of
             Inl err \<Rightarrow> Inl err
           | Inr st2 \<Rightarrow> VisitExpr_each visit (array_data op_args) st2))"

definition ExprVisitor_VisitExpr_Let ::
  "'u visit_fn \<Rightarrow> ref \<Rightarrow> ref \<Rightarrow> ref \<Rightarrow> 'u vstate \<Rightarrow> 'u vres" where
  "ExprVisitor_VisitExpr_Let visit op_var op_value op_body st =
     (case visit op_value st of
        Inl err \<Rightarrow> Inl err
      | Inr st1 \<Rightarrow>
          (case visit op_var st1 of
             Inl err \<Rightarrow> Inl err
           | Inr st2 \<Rightarrow> visit op_body st2))"

definition ExprVisitor_VisitExpr_If ::
  "'u visit_fn \<Rightarrow> ref \<Rightarrow> ref \<Rightarrow> ref \<Rightarrow> 'u vstate \<Rightarrow> 'u vres" where
  "ExprVisitor_VisitExpr_If visit op_cond op_true_branch op_false_branch st =
     (case visit op_cond st of
        Inl err \<Rightarrow> Inl err
      | Inr st1 \<Rightarrow>
          (case visit op_true_branch st1 of
             Inl err \<Rightarrow> Inl err
           | Inr st2 \<Rightarrow> visit op_false_branch st2))"

definition ExprVisitor_VisitExpr_Op :: "'u vstate \<Rightarrow> 'u vres" where
  "ExprVisitor_VisitExpr_Op st = Inr st"

definition ExprVisitor_VisitExpr_TupleGetItem :: "'u visit_fn \<Rightarrow> ref \<Rightarrow> 'u vstate \<Rightarrow> 'u vres" where
  "ExprVisitor_VisitExpr_TupleGetItem visit op_tuple st = visit op_tuple st"

definition ExprVisitor_VisitType :: "'u vtype_fn" where
  "ExprVisitor_VisitType t st = Inr st"

fun ExprVisitor_VisitExpr_node ::
  "'u vtype_fn \<Rightarrow> 'u visit_fn \<Rightarrow> ref \<Rightarrow> node \<Rightarrow> 'u vstate \<Rightarrow> 'u vres" where
  "ExprVisitor_VisitExpr_node visit_type visit op (VarNode name_hint type_annotation) st =
     ExprVisitor_VisitExpr_Var visit_type name_hint type_annotation st"
| "ExprVisitor_VisitExpr_node visit_type visit op (ConstantNode data) st =
     ExprVisitor_VisitExpr_Constant st"
| "ExprVisitor_VisitExpr_node visit_type visit op (GlobalVarNode name_hint) st =
     ExprVisitor_VisitExpr_GlobalVar st"
| "ExprVisitor_VisitExpr_node visit_type visit op (OpNode name) st =
     ExprVisitor_VisitExpr_Op st"
| "ExprVisitor_VisitExpr_node visit_type visit op (TupleNode fs) st =
     ExprVisitor_VisitExpr_Tuple visit fs st"
| "ExprVisitor_VisitExpr_node visit_type visit op (FunctionNode params body ret_type type_params a) st =
     ExprVisitor_VisitExpr_Function visit params body st"
| "ExprVisitor_VisitExpr_node visit_type visit op (CallNode f args a type_args) st =
     ExprVisitor_VisitExpr_Call visit_type visit f type_args args st"
| "ExprVisitor_VisitExpr_node visit_type visit op (LetNode var value body) st =
     ExprVisitor_VisitExpr_Let visit var value body st"
| "ExprVisitor_VisitExpr_node visit_type visit op (IfNode c t f) st =
     ExprVisitor_VisitExpr_If visit c t f st"
| "ExprVisitor_VisitExpr_node visit_type visit op (TupleGetItemNode tuple index) st =
     ExprVisitor_VisitExpr_TupleGetItem visit tuple st"
| "ExprVisitor_VisitExpr_node visit_type visit op (TypeVarNode name) st = Inl Fatal"
| "ExprVisitor_VisitExpr_node visit_type visit op (OtherTypeNode k) st = Inl Fatal"

record 'u visitor_class =
  visitor_VisitType :: "'u vtype_fn"
  visitor_VisitExpr_node :: "'u vtype_fn \<Rightarrow> 'u visit_fn \<Rightarrow> ref \<Rightarrow> node \<Rightarrow> 'u vstate \<Rightarrow> 'u vres"

definition ExprVisitor :: "'u visitor_class" where
  "ExprVisitor =
     \<lparr>visitor_VisitType = ExprVisitor_VisitType,
      visitor_VisitExpr_node = ExprVisitor_VisitExpr_node\<rparr>"

text \<open>
  Modelled from the spec: \<^verbatim>\<open>TParent::VisitExpr\<close>, the dispatch core instantiated for
  the visitor, is declared outside the source file (section 4.1, as above).
\<close>

definition TParent_VisitExpr ::
  "'u visitor_class \<Rightarrow> node list \<Rightarrow> 'u visit_fn \<Rightarrow> ref \<Rightarrow> 'u vstate \<Rightarrow> 'u vres" where
  "TParent_VisitExpr cls H visit expr st =
     (if expr < length H
      then (case H ! expr of
              TypeVarNode name \<Rightarrow> Inl Fatal
            | OtherTypeNode k \<Rightarrow> Inl Fatal
            | nd \<Rightarrow> visitor_VisitExpr_node cls (visitor_VisitType cls) visit expr nd st)
      else Inl Fatal)"

text \<open>
  \<^verbatim>\<open>visit_counter_.insert({expr.get(), 1})\<close> of the standard map: a key that is
  present keeps its value.
\<close>

definition map_insert :: "('k \<rightharpoonup> 'v) \<Rightarrow> 'k \<Rightarrow> 'v \<Rightarrow> ('k \<rightharpoonup> 'v)" where
  "map_insert m k v = (case m k of None \<Rightarrow> m(k \<mapsto> v) | Some old \<Rightarrow> m)"

definition ExprVisitor_VisitExpr ::
  "'u visitor_class \<Rightarrow> node list \<Rightarrow> 'u visit_fn \<Rightarrow> ref \<Rightarrow> 'u vstate \<Rightarrow> 'u vres" where
  "ExprVisitor_VisitExpr cls H visit expr st =
     (case visit_counter st expr of
        Some c \<Rightarrow> Inr (st\<lparr>visit_counter := (visit_counter st)(expr \<mapsto> c + 1)\<rparr>)
      | None \<Rightarrow>
          (case TParent_VisitExpr cls H visit expr st of
             Inl err \<Rightarrow> Inl err
           | Inr st1 \<Rightarrow> Inr (st1\<lparr>visit_counter := map_insert (visit_counter st1) expr 1\<rparr>)))"

text \<open>The traversal, with the depth of the call stack bounded as for \<open>Mutate\<close>.\<close>

primrec VisitExpr :: "'u visitor_class \<Rightarrow> node list \<Rightarrow> nat \<Rightarrow> 'u visit_fn" where
  "VisitExpr cls H 0 = (\<lambda>expr st. Inl OutOfFuel)"
| "VisitExpr cls H (Suc n) = ExprVisitor_VisitExpr cls H (VisitExpr cls H n)"

subsection \<open>Concrete passes\<close>

text \<open>
  A pass that overrides the type hook, and overrides every kind-specific rewrite to note
  the node in its own state and then run the base rewrite.
\<close>

definition Observing :: "(ref \<Rightarrow> node \<Rightarrow> 'u \<Rightarrow> 'u) \<Rightarrow> 'u type_fn \<Rightarrow> 'u mutator_class" where
  "Observing on_rewrite hook =
     \<lparr>VisitType = hook,
      VisitExpr_node = (\<lambda>visit_type mutate op nd st.
         ExprMutator_VisitExpr_node visit_type mutate op nd
           (st\<lparr>user := on_rewrite op nd (user st)\<rparr>))\<rparr>"

text \<open>The counting mutator: it counts the rewrites of Constant nodes.\<close>

definition CountingMutator :: "nat mutator_class" where
  "CountingMutator =
     Observing (\<lambda>op nd count. case nd of ConstantNode d \<Rightarrow> Suc count | _ \<Rightarrow> count)
       ExprMutator_VisitType"

text \<open>The same for the visitor: every callback notes the node, then runs the base callback.\<close>

definition ObservingVisitor ::
  "(ref \<Rightarrow> node \<Rightarrow> 'u \<Rightarrow> 'u) \<Rightarrow> 'u vtype_fn \<Rightarrow> 'u visitor_class" where
  "ObservingVisitor on_visit hook =
     \<lparr>visitor_VisitType = hook,
      visitor_VisitExpr_node = (\<lambda>visit_type visit op nd st.
         ExprVisitor_VisitExpr_node visit_type visit op nd
           (st\<lparr>visitor_user := on_visit op nd (visitor_user st)\<rparr>))\<rparr>"

text \<open>
  The notes of an instrumented mutator: the nodes whose kind-specific rewrite has started,
  in order; the nodes whose kind-specific rewrite has returned, each with its result, in
  order; and the state of the pass itself.
\<close>

record 'a observed =
  started :: "ref list"
  finished :: "(ref \<times> ref) list"
  own :: 'a

definition instrument :: "'a observed \<Rightarrow> ref list \<times> (ref \<times> ref) list" where
  "instrument u = (started u, finished u)"

text \<open>
  A pass with every kind-specific rewrite overridden to note the node, run the rewrite
  of the pass, and note the node with the result.  \<^verbatim>\<open>VisitExpr\<close> binds that result
  in the memo cache as soon as the override returns.
\<close>

definition Instrumented :: "'a observed mutator_class \<Rightarrow> 'a observed mutator_class" where
  "Instrumented cls =
     \<lparr>VisitType = VisitType cls,
      VisitExpr_node = (\<lambda>visit_type mutate op nd st.
         case VisitExpr_node cls visit_type mutate op nd
                (st\<lparr>user := (user st)\<lparr>started := started (user st) @ [op]\<rparr>\<rparr>) of
           Inl err \<Rightarrow> Inl err
         | Inr (r, st1) \<Rightarrow>
             Inr (r, st1\<lparr>user := (user st1)\<lparr>finished := finished (user st1) @ [(op, r)]\<rparr>\<rparr>))\<rparr>"

text \<open>
  The same for the visitor: the state of an instrumented visitor is the list of the nodes
  whose callback has started, in order, and the state of the pass itself; every callback
  is overridden to note the node and run the callback of the pass.
\<close>

definition InstrumentedVisitor ::
  "(ref list \<times> 'a) visitor_class \<Rightarrow> (ref list \<times> 'a) visitor_class" where
  "InstrumentedVisitor cls =
     \<lparr>visitor_VisitType = visitor_VisitType cls,
      visitor_VisitExpr_node = (\<lambda>visit_type visit op nd st.
         visitor_VisitExpr_node cls visit_type visit op nd
           (st\<lparr>visitor_user := (fst (visitor_user st) @ [op], snd (visitor_user st))\<rparr>))\<rparr>"

text \<open>
  The pass of the targeted rebuild of section 8: it overrides the rewrite of a Constant,
  to replace \<open>Constant(1)\<close> by a new \<open>Constant(42)\<close>, and is the base class otherwise.
\<close>

definition ReplaceConstant :: "'u mutator_class" where
  "ReplaceConstant =
     \<lparr>VisitType = ExprMutator_VisitType,
      VisitExpr_node = (\<lambda>visit_type mutate op nd st.
         case nd of
           ConstantNode d \<Rightarrow>
             if d = 1 then Inr (make_node (ConstantNode 42) st) else Inr (op, st)
         | _ \<Rightarrow> ExprMutator_VisitExpr_node visit_type mutate op nd st)\<rparr>"

text \<open>
  A pass whose rewrite of a Constant calls \<^verbatim>\<open>Mutate\<close> on the Constant itself, once (its
  own state says whether it has), and then returns a new Constant with the same data.
  The visitor whose callback of a Constant calls \<^verbatim>\<open>VisitExpr\<close> on the Constant itself,
  once.
\<close>

definition ReenteringMutator :: "bool observed mutator_class" where
  "ReenteringMutator =
     \<lparr>VisitType = ExprMutator_VisitType,
      VisitExpr_node = (\<lambda>visit_type mutate op nd st.
         case nd of
           ConstantNode d \<Rightarrow>
             if own (user st) then Inr (op, st)
             else (case mutate op (st\<lparr>user := (user st)\<lparr>own := True\<rparr>\<rparr>) of
                     Inl err \<Rightarrow> Inl err
                   | Inr (r, st1) \<Rightarrow> Inr (make_node (ConstantNode d) st1))
         | _ \<Rightarrow> ExprMutator_VisitExpr_node visit_type mutate op nd st)\<rparr>"


text \<open>
  Stand-ins for \<^verbatim>\<open>this->VisitExpr\<close> and \<^verbatim>\<open>this->Mutate\<close> that record the order in
  which a handler calls them and leave every expression as it is.
\<close>

definition recording_visit :: "ref list visit_fn" where
  "recording_visit x st = Inr (st\<lparr>visitor_user := visitor_user st @ [x]\<rparr>)"

definition recording_mutate :: "ref list mutate_fn" where
  "recording_mutate x st = Inr (x, st\<lparr>user := user st @ [x]\<rparr>)"

text \<open>A fresh mutator instance over a store, and a fresh visitor instance.\<close>

definition new_mutator :: "node list \<Rightarrow> nat \<Rightarrow> 'u \<Rightarrow> 'u mstate" where
  "new_mutator H k u = \<lparr>heap = H, next_array = k, memo = Map.empty, user = u\<rparr>"

definition new_visitor :: "'u \<Rightarrow> 'u vstate" where
  "new_visitor u = \<lparr>visit_counter = Map.empty, visitor_user = u\<rparr>"

text \<open>
  The graph of section 8: \<open>shared = Constant(1)\<close> at reference 0, \<open>a\<close> and \<open>b\<close> two
  projections of it at 1 and 2, and \<open>root = Tuple([a, b])\<close> at 3.
\<close>

definition shared_graph :: "node list" where
  "shared_graph =
     [ConstantNode 1, TupleGetItemNode 0 0, TupleGetItemNode 0 0, TupleNode (Array 0 [1, 2])]"

text \<open>A pass that rewrites every Var into a new Constant, and is the base class otherwise.\<close>

definition VarToConstant :: "'u mutator_class" where
  "VarToConstant =
     \<lparr>VisitType = ExprMutator_VisitType,
      VisitExpr_node = (\<lambda>visit_type mutate op nd st.
         case nd of
           VarNode name_hint t \<Rightarrow> Inr (make_node (ConstantNode 0) st)
         | _ \<Rightarrow> ExprMutator_VisitExpr_node visit_type mutate op nd st)\<rparr>"

text \<open>
  The graph of the targeted rebuild of section 8: \<open>x\<close> at 0, \<open>Constant(1)\<close> at 1,
  \<open>Constant(2)\<close> at 2, \<open>Tuple([x, Constant(2)])\<close> at 3 and
  \<open>Let(var=x, value=Constant(1), body=Tuple(...))\<close> at 4.
\<close>

definition let_graph :: "node list" where
  "let_graph =
     [VarNode ''x'' None, ConstantNode 1, ConstantNode 2, TupleNode (Array 0 [0, 2]),
      LetNode 0 1 3]"

text \<open>
  \<open>Constant(1)\<close> at 0 and, at 1, a Function without parameters and type parameters, with
  an undefined return type and the attributes 7, whose body is the constant.  Its two
  containers are 0 and 1.
\<close>

definition function_graph :: "node list" where
  "function_graph = [ConstantNode 1, FunctionNode (Array 0 []) 0 None (Array 1 []) 7]"

text \<open>\<open>x\<close> at 0 and the Function \<open>fn (x) { x }\<close> at 1.\<close>

definition identity_function_graph :: "node list" where
  "identity_function_graph =
     [VarNode ''x'' None, FunctionNode (Array 0 [0]) 0 None (Array 1 []) 0]"

text \<open>
  A store with a node of each kind that has children: \<open>x\<close> at 0, \<open>Constant(1)\<close> at 1,
  \<open>Constant(2)\<close> at 2, \<open>Tuple([x, Constant(1)])\<close> at 3, the Call \<open>x(Constant(1))\<close> with
  the attributes 5 at 4, \<open>Let(var=x, value=Constant(1), body=Constant(2))\<close> at 5,
  \<open>If(x, Constant(2), Constant(1))\<close> at 6, the projection 0 of the Tuple at 7,
  \<open>Tuple([x, Constant(2)])\<close> at 8 and its projection 1 at 9.
\<close>

definition rebuild_graph :: "node list" where
  "rebuild_graph =
     [VarNode ''x'' None, ConstantNode 1, ConstantNode 2, TupleNode (Array 0 [0, 1]),
      CallNode 0 (Array 1 [1]) 5 (Array 2 []), LetNode 0 1 2, IfNode 0 2 1,
      TupleGetItemNode 3 0, TupleNode (Array 3 [0, 2]), TupleGetItemNode 8 1]"

subsection \<open>Predicates of the statements\<close>

definition is_Var :: "node list \<Rightarrow> ref \<Rightarrow> bool" where
  "is_Var H r \<longleftrightarrow> r < length H \<and> (case H ! r of VarNode name_hint t \<Rightarrow> True | _ \<Rightarrow> False)"

definition is_terminal :: "node \<Rightarrow> bool" where
  "is_terminal nd =
     (case nd of ConstantNode d \<Rightarrow> True | GlobalVarNode g \<Rightarrow> True | OpNode name \<Rightarrow> True
      | _ \<Rightarrow> False)"

text \<open>A rewriting function, or a type hook, that releases no node of the store.\<close>

definition keeps_heap :: "'u mutate_fn \<Rightarrow> bool" where
  "keeps_heap mut \<longleftrightarrow>
     (\<forall>x st r st'. mut x st = Inr (r, st') \<longrightarrow> length (heap st) \<le> length (heap st'))"

definition type_keeps_heap :: "'u type_fn \<Rightarrow> bool" where
  "type_keeps_heap hook \<longleftrightarrow>
     (\<forall>t st t' st'. hook t st = Inr (t', st') \<longrightarrow> length (heap st) \<le> length (heap st'))"

text \<open>
  \<open>rewritten mut xs st ys st'\<close>: rewriting the expressions \<open>xs\<close> in order, from the
  state \<open>st\<close>, gives the expressions \<open>ys\<close> and the state \<open>st'\<close>.  \<open>types_rewritten\<close> is the
  same for type arguments and the type hook.
\<close>

inductive rewritten :: "'u mutate_fn \<Rightarrow> ref list \<Rightarrow> 'u mstate \<Rightarrow> ref list \<Rightarrow> 'u mstate \<Rightarrow> bool"
  for mut :: "'u mutate_fn" where
  rewritten_Nil: "rewritten mut [] st [] st"
| rewritten_Cons:
    "mut x st = Inr (y, st1) \<Longrightarrow> rewritten mut xs st1 ys st' \<Longrightarrow>
     rewritten mut (x # xs) st (y # ys) st'"

inductive types_rewritten :: "'u type_fn \<Rightarrow> ty list \<Rightarrow> 'u mstate \<Rightarrow> ty list \<Rightarrow> 'u mstate \<Rightarrow> bool"
  for hook :: "'u type_fn" where
  types_rewritten_Nil: "types_rewritten hook [] st [] st"
| types_rewritten_Cons:
    "hook t st = Inr (t', st1) \<Longrightarrow> types_rewritten hook ts st1 ts' st' \<Longrightarrow>
     types_rewritten hook (t # ts) st (t' # ts') st'"

code_pred rewritten .

code_pred types_rewritten .

text \<open>The expressions a node references, in the order of its fields.\<close>

fun children :: "node \<Rightarrow> ref list" where
  "children (TupleNode fs) = array_data fs"
| "children (FunctionNode params body ret_type type_params a) = array_data params @ [body]"
| "children (CallNode f args a type_args) = f # array_data args"
| "children (LetNode var v body) = [var, v, body]"
| "children (IfNode c t f) = [c, t, f]"
| "children (TupleGetItemNode tuple index) = [tuple]"
| "children nd = []"

text \<open>
  The invariant of construction: nodes are immutable and built from existing nodes, so
  each of the first \<open>k\<close> nodes of the store references only nodes built before it.
\<close>

definition dag :: "node list \<Rightarrow> nat \<Rightarrow> bool" where
  "dag H k \<longleftrightarrow> k \<le> length H \<and> (\<forall>a<k. \<forall>c\<in>set (children (H ! a)). c < a)"

text \<open>A type hook that releases no node and leaves the memo cache alone.\<close>

definition hook_ok :: "'u type_fn \<Rightarrow> bool" where
  "hook_ok hook \<longleftrightarrow>
     (\<forall>t st t' st'. hook t st = Inr (t', st') \<longrightarrow>
        prefix (heap st) (heap st') \<and> memo st' = memo st)"

text \<open>
  \<open>memo_grows b st st'\<close>: from \<open>st\<close> to \<open>st'\<close> the store has only been extended, every
  binding of the memo cache is still there with the same value, and every new key is a
  reference below \<open>b\<close>.
\<close>

definition memo_grows :: "nat \<Rightarrow> 'u mstate \<Rightarrow> 'u mstate \<Rightarrow> bool" where
  "memo_grows b st st' \<longleftrightarrow>
     prefix (heap st) (heap st') \<and> memo st \<subseteq>\<^sub>m memo st' \<and>
     dom (memo st') \<subseteq> dom (memo st) \<union> {..<b}"

definition mutates_below :: "'u mutate_fn \<Rightarrow> nat \<Rightarrow> bool" where
  "mutates_below mut b \<longleftrightarrow>
     (\<forall>c<b. \<forall>st r st'. dag (heap st) b \<longrightarrow> mut c st = Inr (r, st') \<longrightarrow> memo_grows b st st')"

text \<open>
  A rewriting function, or a visiting function, whose calls on the references below \<open>b\<close>
  never end for want of stack.
\<close>

definition returns_below :: "'u mutate_fn \<Rightarrow> nat \<Rightarrow> bool" where
  "returns_below mut b \<longleftrightarrow>
     (\<forall>c<b. \<forall>st. dag (heap st) b \<longrightarrow> mut c st \<noteq> Inl OutOfFuel)"

definition visit_returns_below :: "'u visit_fn \<Rightarrow> nat \<Rightarrow> bool" where
  "visit_returns_below visit b \<longleftrightarrow> (\<forall>c<b. \<forall>st. visit c st \<noteq> Inl OutOfFuel)"

text \<open>
  \<open>rewrite_chain obs mut C st st'\<close>: the state \<open>st'\<close> comes from \<open>st\<close> by a sequence of steps,
  each of which is either a call of the rewriting function \<open>mut\<close> on one of the
  references \<open>C\<close> that returns, or a step that leaves the memo cache and the part \<open>obs\<close>
  of the pass state as they are and only extends the store.
\<close>

inductive rewrite_chain ::
  "('u \<Rightarrow> 'o) \<Rightarrow> 'u mutate_fn \<Rightarrow> ref set \<Rightarrow> 'u mstate \<Rightarrow> 'u mstate \<Rightarrow> bool"
  for obs :: "'u \<Rightarrow> 'o" and mut :: "'u mutate_fn" and C :: "ref set" where
  rewrite_chain_done: "rewrite_chain obs mut C st st"
| rewrite_chain_child:
    "c \<in> C \<Longrightarrow> mut c st = Inr (r, st1) \<Longrightarrow> rewrite_chain obs mut C st1 st' \<Longrightarrow>
     rewrite_chain obs mut C st st'"
| rewrite_chain_local:
    "memo st1 = memo st \<Longrightarrow> prefix (heap st) (heap st1) \<Longrightarrow>
     obs (user st1) = obs (user st) \<Longrightarrow> rewrite_chain obs mut C st1 st' \<Longrightarrow>
     rewrite_chain obs mut C st st'"

text \<open>
  A pass that reaches the memo cache only through \<^verbatim>\<open>Mutate\<close> on the children of the
  node it rewrites: whatever \<^verbatim>\<open>this->Mutate\<close> is, a kind-specific rewrite of the pass
  that returns has taken the state through such a chain.  A type hook of that kind.
\<close>

definition child_local :: "('u \<Rightarrow> 'o) \<Rightarrow> 'u mutator_class \<Rightarrow> bool" where
  "child_local obs cls \<longleftrightarrow>
     (\<forall>mut op nd st r st'.
        VisitExpr_node cls (VisitType cls) mut op nd st = Inr (r, st') \<longrightarrow>
        rewrite_chain obs mut (set (children nd)) st st')"

definition hook_local :: "('u \<Rightarrow> 'o) \<Rightarrow> 'u type_fn \<Rightarrow> bool" where
  "hook_local obs hook \<longleftrightarrow>
     (\<forall>t st t' st'. hook t st = Inr (t', st') \<longrightarrow>
        memo st' = memo st \<and> prefix (heap st) (heap st') \<and> obs (user st') = obs (user st))"

text \<open>
  \<open>observed_grow b st st'\<close>, for an instrumented pass: the memo cache has grown as in
  \<open>memo_grows\<close>; the notes have only been extended; the nodes noted as started since
  \<open>st\<close> are exactly the new keys of the memo cache, each once; so are the nodes noted as
  finished, and each is bound in the memo cache of \<open>st'\<close> to the result noted with it.
\<close>

definition observed_grow :: "nat \<Rightarrow> 'a observed mstate \<Rightarrow> 'a observed mstate \<Rightarrow> bool" where
  "observed_grow b st st' \<longleftrightarrow>
     memo_grows b st st' \<and>
     (\<exists>s f. started (user st') = started (user st) @ s \<and>
        finished (user st') = finished (user st) @ f \<and>
        distinct s \<and> set s = dom (memo st') - dom (memo st) \<and>
        distinct (map fst f) \<and> set (map fst f) = dom (memo st') - dom (memo st) \<and>
        (\<forall>k v. (k, v) \<in> set f \<longrightarrow> memo st' k = Some v))"

text \<open>
  The same notions for the visitor.  \<open>visit_chain obs visit C st st'\<close>: a sequence of
  calls of \<open>visit\<close> on the references \<open>C\<close> that return, and of steps that leave the
  counters and the part \<open>obs\<close> of the pass state as they are.
\<close>

inductive visit_chain ::
  "('u \<Rightarrow> 'o) \<Rightarrow> 'u visit_fn \<Rightarrow> ref set \<Rightarrow> 'u vstate \<Rightarrow> 'u vstate \<Rightarrow> bool"
  for obs :: "'u \<Rightarrow> 'o" and visit :: "'u visit_fn" and C :: "ref set" where
  visit_chain_done: "visit_chain obs visit C st st"
| visit_chain_child:
    "c \<in> C \<Longrightarrow> visit c st = Inr st1 \<Longrightarrow> visit_chain obs visit C st1 st' \<Longrightarrow>
     visit_chain obs visit C st st'"
| visit_chain_local:
    "visit_counter st1 = visit_counter st \<Longrightarrow>
     obs (visitor_user st1) = obs (visitor_user st) \<Longrightarrow> visit_chain obs visit C st1 st' \<Longrightarrow>
     visit_chain obs visit C st st'"

definition visitor_child_local :: "('u \<Rightarrow> 'o) \<Rightarrow> 'u visitor_class \<Rightarrow> bool" where
  "visitor_child_local obs cls \<longleftrightarrow>
     (\<forall>visit op nd st st'.
        visitor_VisitExpr_node cls (visitor_VisitType cls) visit op nd st = Inr st' \<longrightarrow>
        visit_chain obs visit (set (children nd)) st st')"

text \<open>
  The nodes that an expression reaches through the fields of the nodes of the store, and
  a set of nodes of the store that holds the children of each of its nodes.
\<close>

inductive reachable :: "node list \<Rightarrow> ref \<Rightarrow> ref \<Rightarrow> bool" for H :: "node list" and e :: ref where
  reachable_root: "reachable H e e"
| reachable_child:
    "reachable H e x \<Longrightarrow> x < length H \<Longrightarrow> c \<in> set (children (H ! x)) \<Longrightarrow> reachable H e c"



section \<open>Properties\<close>

subsection \<open>Terminal nodes and variables\<close>

text \<open>
  C8. For every Constant, GlobalVar and Op node that is not yet in the memo cache,
  \<open>Mutate\<close> of a class that keeps the base rewrite of these kinds returns the original
  reference, whatever the type hook of the class and whatever the rest of the state; the
  only change is the new memo entry.
\<close>

theorem Mutate_terminal_unchanged:
  assumes "expr < length (heap st)" and "is_terminal (heap st ! expr)"
    and "VisitExpr_node cls = ExprMutator_VisitExpr_node"
    and "memo st expr = None"
  shows "Mutate cls (Suc n) expr st = Inr (expr, st\<lparr>memo := (memo st)(expr \<mapsto> expr)\<rparr>)"
  using assms
  by (cases "heap st ! expr")
     (simp_all add: is_terminal_def ExprMutator_VisitExpr_def ExprFunctor_VisitExpr_def
        ExprMutator_VisitExpr_Constant_def ExprMutator_VisitExpr_GlobalVar_def
        ExprMutator_VisitExpr_Op_def)

theorem Mutate_terminal_unchanged_witness:
  "Mutate \<lparr>VisitType = (\<lambda>t st. Inl Fatal), VisitExpr_node = ExprMutator_VisitExpr_node\<rparr>
      (Suc 0) 1 (new_mutator [ConstantNode 7, OpNode ''add'', GlobalVarNode ''main''] 0 ()) =
   Inr (1, (new_mutator [ConstantNode 7, OpNode ''add'', GlobalVarNode ''main''] 0 ())
             \<lparr>memo := [1 \<mapsto> 1]\<rparr>)"
  using Mutate_terminal_unchanged [where expr = 1 and n = 0
      and st = "new_mutator [ConstantNode 7, OpNode ''add'', GlobalVarNode ''main''] 0 ()"
      and cls = "\<lparr>VisitType = (\<lambda>t st. Inl Fatal), VisitExpr_node = ExprMutator_VisitExpr_node\<rparr>"]
  by (simp add: new_mutator_def is_terminal_def)

text \<open>
  C10. The Var rewrite returns the original Var and the unchanged state when the type
  annotation is undefined, for every type hook (the hook is not called: a hook that fails
  or changes the state would show).  With a defined annotation the hook is called once; a
  new Var with the same name hint and the rewritten annotation is built exactly when the
  rewritten annotation is not the original one, and a failure of the hook is passed on.
  A result other than the original Var is always such a new Var.
\<close>

theorem Var_rewrite:
  "ExprMutator_VisitExpr_Var hook op name_hint None st = Inr (op, st) \<and>
   (hook (Some t) st = Inr (t', sta) \<longrightarrow>
      ExprMutator_VisitExpr_Var hook op name_hint (Some t) st =
        (if t' = Some t then Inr (op, sta) else Inr (make_node (VarNode name_hint t') sta))) \<and>
   (hook (Some t) st = Inl err \<longrightarrow>
      ExprMutator_VisitExpr_Var hook op name_hint (Some t) st = Inl err) \<and>
   (ExprMutator_VisitExpr_Var hook op name_hint type_annotation st = Inr (r, st') \<longrightarrow>
      op < length (heap st') \<longrightarrow> r \<noteq> op \<longrightarrow>
      (\<exists>t' st1. type_annotation \<noteq> None \<and> hook type_annotation st = Inr (t', st1) \<and>
         t' \<noteq> type_annotation \<and> r = length (heap st1) \<and>
         heap st' = heap st1 @ [VarNode name_hint t']))"
proof (intro conjI impI)
  show "ExprMutator_VisitExpr_Var hook op name_hint None st = Inr (op, st)"
    by (simp add: ExprMutator_VisitExpr_Var_def)
next
  assume "hook (Some t) st = Inr (t', sta)"
  then show "ExprMutator_VisitExpr_Var hook op name_hint (Some t) st =
        (if t' = Some t then Inr (op, sta) else Inr (make_node (VarNode name_hint t') sta))"
    by (auto simp: ExprMutator_VisitExpr_Var_def)
next
  assume "hook (Some t) st = Inl err"
  then show "ExprMutator_VisitExpr_Var hook op name_hint (Some t) st = Inl err"
    by (simp add: ExprMutator_VisitExpr_Var_def)
next
  assume res: "ExprMutator_VisitExpr_Var hook op name_hint type_annotation st = Inr (r, st')"
    and live: "op < length (heap st')" and new: "r \<noteq> op"
  from res new have defined: "type_annotation \<noteq> None"
    by (cases type_annotation) (simp_all add: ExprMutator_VisitExpr_Var_def)
  with res obtain t' st1 where h: "hook type_annotation st = Inr (t', st1)"
    by (cases "hook type_annotation st") (auto simp: ExprMutator_VisitExpr_Var_def)
  with res new defined have differs: "t' \<noteq> type_annotation"
    and built: "make_node (VarNode name_hint t') st1 = (r, st')"
    by (auto simp: ExprMutator_VisitExpr_Var_def split: if_splits)
  from built have "r = length (heap st1)" "heap st' = heap st1 @ [VarNode name_hint t']"
    by (auto simp: make_node_def)
  with defined h differs
  show "\<exists>t' st1. type_annotation \<noteq> None \<and> hook type_annotation st = Inr (t', st1) \<and>
         t' \<noteq> type_annotation \<and> r = length (heap st1) \<and>
         heap st' = heap st1 @ [VarNode name_hint t']"
    by blast
qed

theorem Var_rewrite_witness:
  "ExprMutator_VisitExpr_Var (\<lambda>t st. Inl Fatal) 2 ''x'' None
       (new_mutator [OtherTypeNode 0, OtherTypeNode 1, VarNode ''x'' (Some 0)] 0 ()) =
     Inr (2, new_mutator [OtherTypeNode 0, OtherTypeNode 1, VarNode ''x'' (Some 0)] 0 ()) \<and>
   ExprMutator_VisitExpr_Var (\<lambda>t st. Inr (Some 1, st)) 2 ''x'' (Some 0)
       (new_mutator [OtherTypeNode 0, OtherTypeNode 1, VarNode ''x'' (Some 0)] 0 ()) =
     Inr (3, new_mutator
               [OtherTypeNode 0, OtherTypeNode 1, VarNode ''x'' (Some 0), VarNode ''x'' (Some 1)]
               0 ()) \<and>
   ExprMutator_VisitExpr_Var ExprMutator_VisitType 2 ''x'' (Some 0)
       (new_mutator [OtherTypeNode 0, OtherTypeNode 1, VarNode ''x'' (Some 0)] 0 ()) =
     Inr (2, new_mutator [OtherTypeNode 0, OtherTypeNode 1, VarNode ''x'' (Some 0)] 0 ())"
  using
    Var_rewrite [where hook = "\<lambda>t st. Inl Fatal" and op = 2 and name_hint = "''x''"
      and st = "new_mutator [OtherTypeNode 0, OtherTypeNode 1, VarNode ''x'' (Some 0)] 0 ()"]
    Var_rewrite [where hook = "\<lambda>t st. Inr (Some 1, st)" and op = 2 and name_hint = "''x''"
      and t = 0 and t' = "Some 1"
      and st = "new_mutator [OtherTypeNode 0, OtherTypeNode 1, VarNode ''x'' (Some 0)] 0 ()"
      and sta = "new_mutator [OtherTypeNode 0, OtherTypeNode 1, VarNode ''x'' (Some 0)] 0 ()"]
    Var_rewrite [where hook = ExprMutator_VisitType and op = 2 and name_hint = "''x''"
      and t = 0 and t' = "Some 0"
      and st = "new_mutator [OtherTypeNode 0, OtherTypeNode 1, VarNode ''x'' (Some 0)] 0 ()"
      and sta = "new_mutator [OtherTypeNode 0, OtherTypeNode 1, VarNode ''x'' (Some 0)] 0 ()"]
  by (simp add: ExprMutator_VisitType_def make_node_def new_mutator_def)

subsection \<open>The loops of the rewrites\<close>

lemma Mutate_each_rewritten:
  "Mutate_each mut xs acc flag st = Inr (acc', flag', st') \<Longrightarrow>
   \<exists>ys. rewritten mut xs st ys st' \<and> acc' = Array (array_node acc) (array_data acc @ ys) \<and>
        (flag' \<longleftrightarrow> flag \<and> ys = xs)"
proof (induction xs arbitrary: acc flag st)
  case Nil
  then show ?case by (auto intro: rewritten.intros)
next
  case (Cons x xs)
  from Cons.prems obtain y st1 where step: "mut x st = Inr (y, st1)"
    and rest: "Mutate_each mut xs (push_back acc y) (flag \<and> y = x) st1 = Inr (acc', flag', st')"
    by (auto split: sum.splits)
  from Cons.IH[OF rest] obtain ys where ys: "rewritten mut xs st1 ys st'"
    "acc' = Array (array_node (push_back acc y)) (array_data (push_back acc y) @ ys)"
    "flag' \<longleftrightarrow> (flag \<and> y = x) \<and> ys = xs"
    by blast
  have "rewritten mut (x # xs) st (y # ys) st'"
    using step ys(1) by (rule rewritten_Cons)
  with ys(2,3) show ?case
    by (intro exI[of _ "y # ys"]) (auto simp: push_back_def)
qed

lemma Call_ty_args_rewritten:
  "Call_ty_args hook ts acc flag st = Inr (acc', flag', st') \<Longrightarrow>
   \<exists>ys. types_rewritten hook ts st ys st' \<and> acc' = Array (array_node acc) (array_data acc @ ys) \<and>
        (flag' \<longleftrightarrow> flag \<and> ys = ts)"
proof (induction ts arbitrary: acc flag st)
  case Nil
  then show ?case by (auto intro: types_rewritten.intros)
next
  case (Cons x xs)
  from Cons.prems obtain y st1 where step: "hook x st = Inr (y, st1)"
    and rest: "Call_ty_args hook xs (push_back acc y) (flag \<and> y = x) st1 = Inr (acc', flag', st')"
    by (auto split: sum.splits)
  from Cons.IH[OF rest] obtain ys where ys: "types_rewritten hook xs st1 ys st'"
    "acc' = Array (array_node (push_back acc y)) (array_data (push_back acc y) @ ys)"
    "flag' \<longleftrightarrow> (flag \<and> y = x) \<and> ys = xs"
    by blast
  have "types_rewritten hook (x # xs) st (y # ys) st'"
    using step ys(1) by (rule types_rewritten_Cons)
  with ys(2,3) show ?case
    by (intro exI[of _ "y # ys"]) (auto simp: push_back_def)
qed

text \<open>
  The loops of the Function rewrite as chains of rewrites (the downcasts only add
  failures).
\<close>

lemma Function_ty_params_rewritten:
  "Function_ty_params hook xs acc flag st = Inr (acc', flag', st') \<Longrightarrow>
   \<exists>ys. types_rewritten hook (map Some xs) st ys st'"
proof (induction xs arbitrary: acc flag st)
  case Nil
  then show ?case by (auto intro: types_rewritten.intros)
next
  case (Cons x xs)
  from Cons.prems obtain t st1 where step: "hook (Some x) st = Inr (t, st1)"
    by (cases "hook (Some x) st") auto
  with Cons.prems obtain y where "Downcast_TypeVar t st1 = Inr y"
    by (cases "Downcast_TypeVar t st1") auto
  with Cons.prems step
  have "Function_ty_params hook xs (push_back acc y) (flag \<and> y = x) st1 = Inr (acc', flag', st')"
    by simp
  from Cons.IH[OF this] obtain ys where "types_rewritten hook (map Some xs) st1 ys st'" ..
  with step have "types_rewritten hook (map Some (x # xs)) st (t # ys) st'"
    by (simp add: types_rewritten_Cons)
  then show ?case ..
qed

lemma Function_params_rewritten:
  "Function_params mut xs acc flag st = Inr (acc', flag', st') \<Longrightarrow>
   \<exists>ys. rewritten mut xs st ys st'"
proof (induction xs arbitrary: acc flag st)
  case Nil
  then show ?case by (auto intro: rewritten.intros)
next
  case (Cons x xs)
  from Cons.prems obtain r st1 where step: "mut x st = Inr (r, st1)"
    by (cases "mut x st") auto
  with Cons.prems obtain y where "Downcast_Var r st1 = Inr y"
    by (cases "Downcast_Var r st1") auto
  with Cons.prems step
  have "Function_params mut xs (push_back acc y) (flag \<and> x = y) st1 = Inr (acc', flag', st')"
    by simp
  from Cons.IH[OF this] obtain ys where "rewritten mut xs st1 ys st'" ..
  with step have "rewritten mut (x # xs) st (r # ys) st'"
    by (simp add: rewritten_Cons)
  then show ?case ..
qed

subsection \<open>Passes that rewrite through the children\<close>

text \<open>
  Every base rewrite is a chain: it reaches the memo cache only through \<^verbatim>\<open>Mutate\<close> on
  the children of its node, and otherwise takes container identities, builds nodes and
  calls the type hook.
\<close>

lemma rewrite_chain_trans:
  "rewrite_chain obs mut C st st1 \<Longrightarrow> rewrite_chain obs mut C st1 st2 \<Longrightarrow>
   rewrite_chain obs mut C st st2"
  by (induction rule: rewrite_chain.induct) (auto intro: rewrite_chain.intros)

lemma rewrite_chain_child1:
  "c \<in> C \<Longrightarrow> mut c st = Inr (r, st') \<Longrightarrow> rewrite_chain obs mut C st st'"
  by (blast intro: rewrite_chain.intros)

lemma rewrite_chain_local1:
  "memo st' = memo st \<Longrightarrow> prefix (heap st) (heap st') \<Longrightarrow> obs (user st') = obs (user st) \<Longrightarrow>
   rewrite_chain obs mut C st st'"
  by (blast intro: rewrite_chain.intros)

lemma rewrite_chain_next_array: "rewrite_chain obs mut C st (st\<lparr>next_array := k\<rparr>)"
  by (rule rewrite_chain_local1) simp_all

lemma rewrite_chain_make_node: "make_node nd st = (r, st') \<Longrightarrow> rewrite_chain obs mut C st st'"
  by (rule rewrite_chain_local1) (auto simp: make_node_def)

lemma rewrite_chain_hook:
  "hook_local obs hook \<Longrightarrow> hook t st = Inr (t', st') \<Longrightarrow> rewrite_chain obs mut C st st'"
  unfolding hook_local_def by (blast intro: rewrite_chain_local1)

lemma rewrite_chain_finish:
  "r = op \<and> st' = st1 \<or> (\<exists>nd. make_node nd st1 = (r, st')) \<Longrightarrow> rewrite_chain obs mut C st1 st'"
  by (auto intro: rewrite_chain_done rewrite_chain_make_node)

lemma rewrite_chain_mono:
  "rewrite_chain obs mut C st st' \<Longrightarrow> C \<subseteq> D \<Longrightarrow> rewrite_chain obs mut D st st'"
  by (induction rule: rewrite_chain.induct) (auto intro: rewrite_chain.intros)

lemma rewritten_chain:
  "rewritten mut xs st ys st' \<Longrightarrow> set xs \<subseteq> C \<Longrightarrow> rewrite_chain obs mut C st st'"
proof (induction rule: rewritten.induct)
  case (rewritten_Nil st)
  show ?case by (rule rewrite_chain_done)
next
  case (rewritten_Cons x st y st1 xs ys st')
  from rewritten_Cons.prems have x: "x \<in> C" and xs: "set xs \<subseteq> C" by simp_all
  from x rewritten_Cons.hyps(1) rewritten_Cons.IH[OF xs] show ?case
    by (rule rewrite_chain_child)
qed

lemma types_rewritten_chain:
  "types_rewritten hook ts st ys st' \<Longrightarrow> hook_local obs hook \<Longrightarrow> rewrite_chain obs mut C st st'"
proof (induction rule: types_rewritten.induct)
  case (types_rewritten_Nil st)
  show ?case by (rule rewrite_chain_done)
next
  case (types_rewritten_Cons t st t' st1 ts ts' st')
  have "rewrite_chain obs mut C st st1"
    using types_rewritten_Cons.prems types_rewritten_Cons.hyps(1) by (rule rewrite_chain_hook)
  moreover have "rewrite_chain obs mut C st1 st'"
    using types_rewritten_Cons.IH types_rewritten_Cons.prems .
  ultimately show ?case by (rule rewrite_chain_trans)
qed

lemma Var_chain:
  assumes "ExprMutator_VisitExpr_Var hook op name_hint t st = Inr (r, st')"
    and hl: "hook_local obs hook"
  shows "rewrite_chain obs mut C st st'"
proof (cases "t = None")
  case True
  with assms(1) show ?thesis by (simp add: ExprMutator_VisitExpr_Var_def rewrite_chain_done)
next
  case False
  with assms(1) obtain t' st1 where h: "hook t st = Inr (t', st1)"
    by (cases "hook t st") (auto simp: ExprMutator_VisitExpr_Var_def)
  with assms(1) False
  have "r = op \<and> st' = st1 \<or> (\<exists>nd. make_node nd st1 = (r, st'))"
    by (auto simp: ExprMutator_VisitExpr_Var_def split: if_splits)
  then have "rewrite_chain obs mut C st1 st'" by (rule rewrite_chain_finish)
  with rewrite_chain_hook[OF hl h] show ?thesis by (rule rewrite_chain_trans)
qed

lemma Tuple_chain:
  assumes "ExprMutator_VisitExpr_Tuple mut op fs st = Inr (r, st')"
    and "set (array_data fs) \<subseteq> C"
  shows "rewrite_chain obs mut C st st'"
proof -
  let ?st0 = "st\<lparr>next_array := Suc (next_array st)\<rparr>"
  from assms(1) obtain acc' flag' st1 where
    loop: "Mutate_each mut (array_data fs) (Array (next_array st) []) True ?st0 = Inr (acc', flag', st1)"
    by (cases "Mutate_each mut (array_data fs) (Array (next_array st) []) True ?st0")
       (auto simp: ExprMutator_VisitExpr_Tuple_def Array_new_def)
  with assms(1) have "r = op \<and> st' = st1 \<or> (\<exists>nd. make_node nd st1 = (r, st'))"
    by (auto simp: ExprMutator_VisitExpr_Tuple_def Array_new_def split: if_splits)
  then have fin: "rewrite_chain obs mut C st1 st'" by (rule rewrite_chain_finish)
  from Mutate_each_rewritten[OF loop] obtain ys where
    "rewritten mut (array_data fs) ?st0 ys st1" by blast
  then have "rewrite_chain obs mut C ?st0 st1" using assms(2) by (rule rewritten_chain)
  with rewrite_chain_next_array have "rewrite_chain obs mut C st st1" by (rule rewrite_chain_trans)
  then show ?thesis using fin by (rule rewrite_chain_trans)
qed

lemma TupleGetItem_chain:
  assumes "ExprMutator_VisitExpr_TupleGetItem mut op t i st = Inr (r, st')" and "t \<in> C"
  shows "rewrite_chain obs mut C st st'"
proof -
  from assms(1) obtain t' st1 where m: "mut t st = Inr (t', st1)"
    by (cases "mut t st") (auto simp: ExprMutator_VisitExpr_TupleGetItem_def)
  with assms(1) have "r = op \<and> st' = st1 \<or> (\<exists>nd. make_node nd st1 = (r, st'))"
    by (auto simp: ExprMutator_VisitExpr_TupleGetItem_def split: if_splits)
  then have "rewrite_chain obs mut C st1 st'" by (rule rewrite_chain_finish)
  moreover have "rewrite_chain obs mut C st st1" using assms(2) m by (rule rewrite_chain_child1)
  ultimately show ?thesis by (rule rewrite_chain_trans[rotated])
qed

lemma If_chain:
  assumes "ExprMutator_VisitExpr_If mut op c t f st = Inr (r, st')"
    and "c \<in> C" and "t \<in> C" and "f \<in> C"
  shows "rewrite_chain obs mut C st st'"
proof -
  from assms(1) obtain c' st1 where m1: "mut c st = Inr (c', st1)"
    by (cases "mut c st") (auto simp: ExprMutator_VisitExpr_If_def)
  with assms(1) obtain t' st2 where m2: "mut t st1 = Inr (t', st2)"
    by (cases "mut t st1") (auto simp: ExprMutator_VisitExpr_If_def)
  with assms(1) m1 obtain f' st3 where m3: "mut f st2 = Inr (f', st3)"
    by (cases "mut f st2") (auto simp: ExprMutator_VisitExpr_If_def)
  have "rewritten mut [c, t, f] st [c', t', f'] st3"
    using m1 m2 m3 by (auto intro: rewritten.intros)
  then have "rewrite_chain obs mut C st st3" using assms(2-4) by (simp add: rewritten_chain)
  moreover from assms(1) m1 m2 m3
  have "r = op \<and> st' = st3 \<or> (\<exists>nd. make_node nd st3 = (r, st'))"
    by (auto simp: ExprMutator_VisitExpr_If_def split: if_splits)
  then have "rewrite_chain obs mut C st3 st'" by (rule rewrite_chain_finish)
  ultimately show ?thesis by (rule rewrite_chain_trans)
qed

lemma Let_chain:
  assumes "ExprMutator_VisitExpr_Let mut op var v body st = Inr (r, st')"
    and "var \<in> C" and "v \<in> C" and "body \<in> C"
  shows "rewrite_chain obs mut C st st'"
proof -
  from assms(1) obtain var0 st1 where m1: "mut var st = Inr (var0, st1)"
    by (cases "mut var st") (auto simp: ExprMutator_VisitExpr_Let_def)
  with assms(1) obtain var' where d: "Downcast_Var var0 st1 = Inr var'"
    by (cases "Downcast_Var var0 st1") (auto simp: ExprMutator_VisitExpr_Let_def)
  with assms(1) m1 obtain v' st2 where m2: "mut v st1 = Inr (v', st2)"
    by (cases "mut v st1") (auto simp: ExprMutator_VisitExpr_Let_def)
  with assms(1) m1 d obtain body' st3 where m3: "mut body st2 = Inr (body', st3)"
    by (cases "mut body st2") (auto simp: ExprMutator_VisitExpr_Let_def)
  have "rewritten mut [var, v, body] st [var0, v', body'] st3"
    using m1 m2 m3 by (auto intro: rewritten.intros)
  then have "rewrite_chain obs mut C st st3" using assms(2-4) by (simp add: rewritten_chain)
  moreover from assms(1) m1 d m2 m3
  have "r = op \<and> st' = st3 \<or> (\<exists>nd. make_node nd st3 = (r, st'))"
    by (auto simp: ExprMutator_VisitExpr_Let_def split: if_splits)
  then have "rewrite_chain obs mut C st3 st'" by (rule rewrite_chain_finish)
  ultimately show ?thesis by (rule rewrite_chain_trans)
qed

lemma Call_chain:
  assumes "ExprMutator_VisitExpr_Call hook mut op f args a targs st = Inr (r, st')"
    and hl: "hook_local obs hook" and "f \<in> C" and "set (array_data args) \<subseteq> C"
  shows "rewrite_chain obs mut C st st'"
proof -
  from assms(1) obtain f' st1 where m: "mut f st = Inr (f', st1)"
    by (cases "mut f st") (auto simp: ExprMutator_VisitExpr_Call_def)
  let ?st2 = "st1\<lparr>next_array := Suc (next_array st1)\<rparr>"
  from assms(1) m obtain tacc flag st3 where
    tl: "Call_ty_args hook (array_data targs) (Array (next_array st1) []) (f = f') ?st2 = Inr (tacc, flag, st3)"
    by (cases "Call_ty_args hook (array_data targs) (Array (next_array st1) []) (f = f') ?st2")
       (auto simp: ExprMutator_VisitExpr_Call_def Array_new_def)
  let ?st4 = "st3\<lparr>next_array := Suc (next_array st3)\<rparr>"
  from assms(1) m tl obtain acc flag' st5 where
    al: "Mutate_each mut (array_data args) (Array (next_array st3) []) flag ?st4 = Inr (acc, flag', st5)"
    by (cases "Mutate_each mut (array_data args) (Array (next_array st3) []) flag ?st4")
       (auto simp: ExprMutator_VisitExpr_Call_def Array_new_def)
  with assms(1) m tl have "r = op \<and> st' = st5 \<or> (\<exists>nd. make_node nd st5 = (r, st'))"
    by (auto simp: ExprMutator_VisitExpr_Call_def Array_new_def split: if_splits)
  then have fin: "rewrite_chain obs mut C st5 st'" by (rule rewrite_chain_finish)
  note tr = rewrite_chain_trans[where obs = obs and mut = mut and C = C]
  have g1: "rewrite_chain obs mut C st st1" using assms(3) m by (rule rewrite_chain_child1)
  have g2: "rewrite_chain obs mut C st ?st2" using g1 rewrite_chain_next_array by (rule tr)
  from Call_ty_args_rewritten[OF tl] obtain ts where
    "types_rewritten hook (array_data targs) ?st2 ts st3" by blast
  then have "rewrite_chain obs mut C ?st2 st3" using hl by (rule types_rewritten_chain)
  with g2 have g3: "rewrite_chain obs mut C st st3" by (rule tr)
  have g4: "rewrite_chain obs mut C st ?st4" using g3 rewrite_chain_next_array by (rule tr)
  from Mutate_each_rewritten[OF al] obtain ys where
    "rewritten mut (array_data args) ?st4 ys st5" by blast
  then have "rewrite_chain obs mut C ?st4 st5" using assms(4) by (rule rewritten_chain)
  with g4 have "rewrite_chain obs mut C st st5" by (rule tr)
  then show ?thesis using fin by (rule tr)
qed

lemma Function_chain:
  assumes "ExprMutator_VisitExpr_Function hook mut op params body ret_type type_params a st =
             Inr (r, st')"
    and hl: "hook_local obs hook" and "body \<in> C" and "set (array_data params) \<subseteq> C"
  shows "rewrite_chain obs mut C st st'"
proof -
  let ?st0 = "st\<lparr>next_array := Suc (next_array st)\<rparr>"
  from assms(1) obtain tps f1 st1 where
    tl: "Function_ty_params hook (array_data type_params) (Array (next_array st) []) True ?st0 =
           Inr (tps, f1, st1)"
    by (cases "Function_ty_params hook (array_data type_params) (Array (next_array st) []) True ?st0")
       (auto simp: ExprMutator_VisitExpr_Function_def Array_new_def)
  let ?st2 = "st1\<lparr>next_array := Suc (next_array st1)\<rparr>"
  from assms(1) tl obtain ps f2 st3 where
    pl: "Function_params mut (array_data params) (Array (next_array st1) []) True ?st2 =
           Inr (ps, f2, st3)"
    by (cases "Function_params mut (array_data params) (Array (next_array st1) []) True ?st2")
       (auto simp: ExprMutator_VisitExpr_Function_def Array_new_def)
  from assms(1) tl pl obtain rt st4 where h: "hook ret_type st3 = Inr (rt, st4)"
    by (cases "hook ret_type st3") (auto simp: ExprMutator_VisitExpr_Function_def Array_new_def)
  from assms(1) tl pl h obtain body' st5 where m: "mut body st4 = Inr (body', st5)"
    by (cases "mut body st4") (auto simp: ExprMutator_VisitExpr_Function_def Array_new_def)
  with assms(1) tl pl h have "r = op \<and> st' = st5 \<or> (\<exists>nd. make_node nd st5 = (r, st'))"
    by (auto simp: ExprMutator_VisitExpr_Function_def Array_new_def split: if_splits)
  then have fin: "rewrite_chain obs mut C st5 st'" by (rule rewrite_chain_finish)
  note tr = rewrite_chain_trans[where obs = obs and mut = mut and C = C]
  from Function_ty_params_rewritten[OF tl] obtain ts where
    "types_rewritten hook (map Some (array_data type_params)) ?st0 ts st1" ..
  then have "rewrite_chain obs mut C ?st0 st1" using hl by (rule types_rewritten_chain)
  with rewrite_chain_next_array have g1: "rewrite_chain obs mut C st st1" by (rule tr)
  have g2: "rewrite_chain obs mut C st ?st2" using g1 rewrite_chain_next_array by (rule tr)
  from Function_params_rewritten[OF pl] obtain ys where
    "rewritten mut (array_data params) ?st2 ys st3" ..
  then have "rewrite_chain obs mut C ?st2 st3" using assms(4) by (rule rewritten_chain)
  with g2 have g3: "rewrite_chain obs mut C st st3" by (rule tr)
  have g4: "rewrite_chain obs mut C st st4" using g3 rewrite_chain_hook[OF hl h] by (rule tr)
  have "rewrite_chain obs mut C st4 st5" using assms(3) m by (rule rewrite_chain_child1)
  with g4 have "rewrite_chain obs mut C st st5" by (rule tr)
  then show ?thesis using fin by (rule tr)
qed

lemma VisitExpr_node_chain:
  assumes "ExprMutator_VisitExpr_node hook mut op nd st = Inr (r, st')"
    and hl: "hook_local obs hook"
  shows "rewrite_chain obs mut (set (children nd)) st st'"
proof (cases nd)
  case (VarNode name_hint t)
  with assms show ?thesis by (simp add: Var_chain)
next
  case (ConstantNode d)
  with assms(1) show ?thesis
    by (simp add: ExprMutator_VisitExpr_Constant_def rewrite_chain_done)
next
  case (GlobalVarNode g)
  with assms(1) show ?thesis
    by (simp add: ExprMutator_VisitExpr_GlobalVar_def rewrite_chain_done)
next
  case (OpNode name)
  with assms(1) show ?thesis
    by (simp add: ExprMutator_VisitExpr_Op_def rewrite_chain_done)
next
  case (TupleNode fs)
  with assms(1) have "ExprMutator_VisitExpr_Tuple mut op fs st = Inr (r, st')" by simp
  then have "rewrite_chain obs mut (set (array_data fs)) st st'"
    by (rule Tuple_chain) simp
  with TupleNode show ?thesis by simp
next
  case (FunctionNode params body ret_type type_params a)
  with assms(1) have "ExprMutator_VisitExpr_Function hook mut op params body ret_type type_params a st =
             Inr (r, st')" by simp
  then have "rewrite_chain obs mut (set (array_data params @ [body])) st st'"
    using hl by (rule Function_chain) auto
  with FunctionNode show ?thesis by simp
next
  case (CallNode f args a targs)
  with assms(1) have "ExprMutator_VisitExpr_Call hook mut op f args a targs st = Inr (r, st')"
    by simp
  then have "rewrite_chain obs mut (set (f # array_data args)) st st'"
    using hl by (rule Call_chain) auto
  with CallNode show ?thesis by simp
next
  case (LetNode var v body)
  with assms(1) have "ExprMutator_VisitExpr_Let mut op var v body st = Inr (r, st')" by simp
  then have "rewrite_chain obs mut (set [var, v, body]) st st'"
    by (rule Let_chain) simp_all
  with LetNode show ?thesis by simp
next
  case (IfNode c t f)
  with assms(1) have "ExprMutator_VisitExpr_If mut op c t f st = Inr (r, st')" by simp
  then have "rewrite_chain obs mut (set [c, t, f]) st st'"
    by (rule If_chain) simp_all
  with IfNode show ?thesis by simp
next
  case (TupleGetItemNode t i)
  with assms(1) have "ExprMutator_VisitExpr_TupleGetItem mut op t i st = Inr (r, st')" by simp
  then have "rewrite_chain obs mut (set [t]) st st'"
    by (rule TupleGetItem_chain) simp
  with TupleGetItemNode show ?thesis by simp
next
  case (TypeVarNode name)
  with assms(1) show ?thesis by simp
next
  case (OtherTypeNode k)
  with assms(1) show ?thesis by simp
qed

text \<open>
  The passes of this kind: the base class with any type hook that leaves the memo cache
  alone, the passes that observe the rewrites, and the pass that replaces a Constant.
\<close>

lemma child_localD:
  "child_local obs cls \<Longrightarrow> VisitExpr_node cls (VisitType cls) mut op nd st = Inr (r, st') \<Longrightarrow>
   rewrite_chain obs mut (set (children nd)) st st'"
  unfolding child_local_def by blast

lemma hook_local_ExprMutator_VisitType: "hook_local obs ExprMutator_VisitType"
  by (simp add: hook_local_def ExprMutator_VisitType_def)

lemma hook_ok_local: "hook_ok hook \<Longrightarrow> hook_local (\<lambda>u. ()) hook"
  by (simp add: hook_ok_def hook_local_def)

lemma ExprMutator_child_local: "child_local obs ExprMutator"
  unfolding child_local_def ExprMutator_def
  by (auto intro: VisitExpr_node_chain hook_local_ExprMutator_VisitType)

lemma Observing_child_local:
  assumes "hook_local obs hook" and "\<And>op nd u. obs (f op nd u) = obs u"
  shows "child_local obs (Observing f hook)"
  unfolding child_local_def
proof (intro allI impI)
  fix mut op nd st r st'
  assume "VisitExpr_node (Observing f hook) (VisitType (Observing f hook)) mut op nd st =
            Inr (r, st')"
  then have "ExprMutator_VisitExpr_node hook mut op nd (st\<lparr>user := f op nd (user st)\<rparr>) =
            Inr (r, st')"
    by (simp add: Observing_def)
  then have "rewrite_chain obs mut (set (children nd)) (st\<lparr>user := f op nd (user st)\<rparr>) st'"
    using assms(1) by (rule VisitExpr_node_chain)
  moreover have "rewrite_chain obs mut (set (children nd)) st (st\<lparr>user := f op nd (user st)\<rparr>)"
    by (rule rewrite_chain_local1) (simp_all add: assms(2))
  ultimately show "rewrite_chain obs mut (set (children nd)) st st'"
    by (rule rewrite_chain_trans[rotated])
qed

lemma ReplaceConstant_child_local: "child_local obs ReplaceConstant"
  unfolding child_local_def
proof (intro allI impI)
  fix mut op nd and st :: "'a mstate" and r st'
  assume h: "VisitExpr_node ReplaceConstant (VisitType ReplaceConstant) mut op nd st = Inr (r, st')"
  show "rewrite_chain obs mut (set (children nd)) st st'"
  proof (cases "\<exists>d. nd = ConstantNode d")
    case True
    with h have "r = op \<and> st' = st \<or> (\<exists>nd. make_node nd st = (r, st'))"
      by (auto simp: ReplaceConstant_def split: if_splits)
    then show ?thesis by (rule rewrite_chain_finish)
  next
    case False
    with h have "ExprMutator_VisitExpr_node ExprMutator_VisitType mut op nd st = Inr (r, st')"
      by (cases nd) (simp_all add: ReplaceConstant_def)
    then show ?thesis using hook_local_ExprMutator_VisitType by (rule VisitExpr_node_chain)
  qed
qed

text \<open>Such a pass releases no node of the store.\<close>

lemma rewrite_chain_prefix:
  "rewrite_chain obs mut C st st' \<Longrightarrow>
   (\<And>c s r s'. c \<in> C \<Longrightarrow> mut c s = Inr (r, s') \<Longrightarrow> prefix (heap s) (heap s')) \<Longrightarrow>
   prefix (heap st) (heap st')"
proof (induction rule: rewrite_chain.induct)
  case (rewrite_chain_done st)
  show ?case by simp
next
  case (rewrite_chain_child c st r st1 st')
  from rewrite_chain_child.prems[OF rewrite_chain_child.hyps(1,2)]
  have "prefix (heap st) (heap st1)" .
  moreover have "prefix (heap st1) (heap st')"
    using rewrite_chain_child.IH rewrite_chain_child.prems by blast
  ultimately show ?case by (rule prefix_order.trans)
next
  case (rewrite_chain_local st1 st st')
  have "prefix (heap st1) (heap st')"
    using rewrite_chain_local.IH rewrite_chain_local.prems by blast
  with rewrite_chain_local.hyps(2) show ?case by (rule prefix_order.trans)
qed

lemma Mutate_prefix:
  assumes "child_local obs cls"
  shows "Mutate cls n e st = Inr (r, st') \<Longrightarrow> prefix (heap st) (heap st')"
proof (induction n arbitrary: e st r st')
  case 0
  then show ?case by simp
next
  case (Suc n)
  show ?case
  proof (cases "memo st e")
    case (Some it)
    with Suc.prems have "st' = st" by (simp add: ExprMutator_VisitExpr_def)
    then show ?thesis by simp
  next
    case None
    with Suc.prems obtain r1 st1 where
      d: "ExprFunctor_VisitExpr cls (Mutate cls n) e st = Inr (r1, st1)"
      and res: "st' = st1\<lparr>memo := (memo st1)(e \<mapsto> r1)\<rparr>"
      by (cases "ExprFunctor_VisitExpr cls (Mutate cls n) e st")
         (auto simp: ExprMutator_VisitExpr_def)
    from d have "VisitExpr_node cls (VisitType cls) (Mutate cls n) e (heap st ! e) st = Inr (r1, st1)"
      by (cases "heap st ! e") (simp_all add: ExprFunctor_VisitExpr_def split: if_splits)
    with assms have "rewrite_chain obs (Mutate cls n) (set (children (heap st ! e))) st st1"
      by (rule child_localD)
    then have "prefix (heap st) (heap st1)"
      by (rule rewrite_chain_prefix) (rule Suc.IH)
    with res show ?thesis by simp
  qed
qed

lemma Mutate_keeps_heap: "child_local obs cls \<Longrightarrow> keeps_heap (Mutate cls n)"
  unfolding keeps_heap_def by (blast dest: Mutate_prefix prefix_length_le)

subsection \<open>Structural sharing\<close>

lemma rewritten_keeps_heap:
  "rewritten mut xs st ys st' \<Longrightarrow> keeps_heap mut \<Longrightarrow> length (heap st) \<le> length (heap st')"
proof (induction rule: rewritten.induct)
  case (rewritten_Nil st)
  show ?case by simp
next
  case (rewritten_Cons x st y st1 xs ys st')
  from rewritten_Cons.prems rewritten_Cons.hyps(1)
  have "length (heap st) \<le> length (heap st1)" by (auto simp: keeps_heap_def)
  with rewritten_Cons.IH[OF rewritten_Cons.prems] show ?case by simp
qed

lemma types_rewritten_keeps_heap:
  "types_rewritten hook ts st ys st' \<Longrightarrow> type_keeps_heap hook \<Longrightarrow>
   length (heap st) \<le> length (heap st')"
proof (induction rule: types_rewritten.induct)
  case (types_rewritten_Nil st)
  show ?case by simp
next
  case (types_rewritten_Cons t st t' st1 ts ts' st')
  from types_rewritten_Cons.prems types_rewritten_Cons.hyps(1)
  have "length (heap st) \<le> length (heap st1)" by (auto simp: type_keeps_heap_def)
  with types_rewritten_Cons.IH[OF types_rewritten_Cons.prems] show ?case by simp
qed

lemma keeps_heapD: "keeps_heap mut \<Longrightarrow> mut x st = Inr (r, st') \<Longrightarrow> length (heap st) \<le> length (heap st')"
  by (auto simp: keeps_heap_def)

lemma Tuple_rebuild:
  assumes "keeps_heap mut" and "op < length (heap st)"
    and "ExprMutator_VisitExpr_Tuple mut op fs st = Inr (r, st')"
  shows "\<exists>ys st1. rewritten mut (array_data fs) (st\<lparr>next_array := Suc (next_array st)\<rparr>) ys st1 \<and>
           (r = op \<longleftrightarrow> ys = array_data fs) \<and>
           (if ys = array_data fs then st' = st1
            else (r, st') = make_node (TupleNode (Array (next_array st) ys)) st1)"
proof -
  let ?st0 = "st\<lparr>next_array := Suc (next_array st)\<rparr>"
  from assms(3) obtain acc' flag' st1 where
    loop: "Mutate_each mut (array_data fs) (Array (next_array st) []) True ?st0 = Inr (acc', flag', st1)"
    by (cases "Mutate_each mut (array_data fs) (Array (next_array st) []) True ?st0")
       (auto simp: ExprMutator_VisitExpr_Tuple_def Array_new_def)
  with assms(3) have
    res: "(if flag' then Inr (op, st1) else Inr (make_node (TupleNode acc') st1)) = Inr (r, st')"
    by (simp add: ExprMutator_VisitExpr_Tuple_def Array_new_def split: if_splits)
  from Mutate_each_rewritten[OF loop] obtain ys where
    ys: "rewritten mut (array_data fs) ?st0 ys st1" "acc' = Array (next_array st) ys"
      "flag' \<longleftrightarrow> ys = array_data fs"
    by auto
  have "length (heap ?st0) \<le> length (heap st1)"
    using ys(1) assms(1) by (rule rewritten_keeps_heap)
  with assms(2) have fresh: "op \<noteq> length (heap st1)" by simp
  show ?thesis
  proof (cases flag')
    case True
    with res have "r = op" "st' = st1" by auto
    with ys True show ?thesis
      by (intro exI[of _ ys] exI[of _ st1]) simp
  next
    case False
    with res have mk: "(r, st') = make_node (TupleNode acc') st1" by auto
    then have "r = length (heap st1)" by (simp add: make_node_def)
    with fresh have "r \<noteq> op" by simp
    with ys mk False show ?thesis
      by (intro exI[of _ ys] exI[of _ st1]) auto
  qed
qed

lemma TupleGetItem_rebuild:
  assumes "keeps_heap mut" and "op < length (heap st)"
    and "ExprMutator_VisitExpr_TupleGetItem mut op t i st = Inr (r, st')"
  shows "\<exists>t' st1. mut t st = Inr (t', st1) \<and> (r = op \<longleftrightarrow> t' = t) \<and>
           (if t' = t then st' = st1 else (r, st') = make_node (TupleGetItemNode t' i) st1)"
proof -
  from assms(3) obtain t' st1 where m: "mut t st = Inr (t', st1)"
    by (cases "mut t st") (auto simp: ExprMutator_VisitExpr_TupleGetItem_def)
  with assms(3) have
    res: "(if t = t' then Inr (op, st1) else Inr (make_node (TupleGetItemNode t' i) st1)) = Inr (r, st')"
    by (simp add: ExprMutator_VisitExpr_TupleGetItem_def split: if_splits)
  from keeps_heapD[OF assms(1) m] assms(2) have "op \<noteq> length (heap st1)" by simp
  with m res show ?thesis
    by (intro exI[of _ t'] exI[of _ st1]) (auto simp: make_node_def split: if_splits)
qed

lemma If_rebuild:
  assumes "keeps_heap mut" and "op < length (heap st)"
    and "ExprMutator_VisitExpr_If mut op c t f st = Inr (r, st')"
  shows "\<exists>c' st1 t' st2 f' st3.
           mut c st = Inr (c', st1) \<and> mut t st1 = Inr (t', st2) \<and> mut f st2 = Inr (f', st3) \<and>
           (r = op \<longleftrightarrow> c' = c \<and> t' = t \<and> f' = f) \<and>
           (if c' = c \<and> t' = t \<and> f' = f then st' = st3
            else (r, st') = make_node (IfNode c' t' f') st3)"
proof -
  from assms(3) obtain c' st1 where m1: "mut c st = Inr (c', st1)"
    by (cases "mut c st") (auto simp: ExprMutator_VisitExpr_If_def)
  with assms(3) obtain t' st2 where m2: "mut t st1 = Inr (t', st2)"
    by (cases "mut t st1") (auto simp: ExprMutator_VisitExpr_If_def)
  with assms(3) m1 obtain f' st3 where m3: "mut f st2 = Inr (f', st3)"
    by (cases "mut f st2") (auto simp: ExprMutator_VisitExpr_If_def)
  note m = m1 m2 m3
  with assms(3) have
    res: "(if c = c' \<and> t = t' \<and> f = f' then Inr (op, st3)
               else Inr (make_node (IfNode c' t' f') st3)) = Inr (r, st')"
    by (auto simp: ExprMutator_VisitExpr_If_def split: if_splits)
  from m[THEN keeps_heapD[OF assms(1)]] assms(2) have fresh: "op \<noteq> length (heap st3)" by simp
  show ?thesis
  proof (cases "c' = c \<and> t' = t \<and> f' = f")
    case True
    with res have "r = op" "st' = st3" by auto
    with m True show ?thesis by simp
  next
    case False
    with res have mk: "(r, st') = make_node (IfNode c' t' f') st3" by auto
    then have "r = length (heap st3)" by (simp add: make_node_def)
    with fresh have "r \<noteq> op" by simp
    with m mk False show ?thesis by auto
  qed
qed

lemma Downcast_Var_iff: "Downcast_Var r st = Inr v \<longleftrightarrow> v = r \<and> is_Var (heap st) r"
  by (auto simp: Downcast_Var_def is_Var_def split: node.splits)

lemma Downcast_Var_Fatal: "\<not> is_Var (heap st) r \<Longrightarrow> Downcast_Var r st = Inl Fatal"
  by (auto simp: Downcast_Var_def is_Var_def split: node.splits)

lemma Let_rebuild:
  assumes "keeps_heap mut" and "op < length (heap st)"
    and "ExprMutator_VisitExpr_Let mut op var v body st = Inr (r, st')"
  shows "\<exists>var' st1 v' st2 body' st3.
           mut var st = Inr (var', st1) \<and> is_Var (heap st1) var' \<and>
           mut v st1 = Inr (v', st2) \<and> mut body st2 = Inr (body', st3) \<and>
           (r = op \<longleftrightarrow> var' = var \<and> v' = v \<and> body' = body) \<and>
           (if var' = var \<and> v' = v \<and> body' = body then st' = st3
            else (r, st') = make_node (LetNode var' v' body') st3)"
proof -
  from assms(3) obtain var0 st1 where m1: "mut var st = Inr (var0, st1)"
    by (cases "mut var st") (auto simp: ExprMutator_VisitExpr_Let_def)
  with assms(3) obtain var' where d: "Downcast_Var var0 st1 = Inr var'"
    by (cases "Downcast_Var var0 st1") (auto simp: ExprMutator_VisitExpr_Let_def)
  with assms(3) m1 obtain v' st2 where m2: "mut v st1 = Inr (v', st2)"
    by (cases "mut v st1") (auto simp: ExprMutator_VisitExpr_Let_def)
  with assms(3) m1 d obtain body' st3 where m3: "mut body st2 = Inr (body', st3)"
    by (cases "mut body st2") (auto simp: ExprMutator_VisitExpr_Let_def)
  note m = m1 m2 m3
  with assms(3) d have
    res: "(if var' = var \<and> v' = v \<and> body' = body then Inr (op, st3)
               else Inr (make_node (LetNode var' v' body') st3)) = Inr (r, st')"
    by (auto simp: ExprMutator_VisitExpr_Let_def split: if_splits)
  from d have v: "var' = var0" "is_Var (heap st1) var0" by (auto simp: Downcast_Var_iff)
  from m[THEN keeps_heapD[OF assms(1)]] assms(2) have fresh: "op \<noteq> length (heap st3)" by simp
  show ?thesis
  proof (cases "var' = var \<and> v' = v \<and> body' = body")
    case True
    with res have "r = op" "st' = st3" by auto
    with m v True show ?thesis by simp
  next
    case False
    with res have mk: "(r, st') = make_node (LetNode var' v' body') st3" by auto
    then have "r = length (heap st3)" by (simp add: make_node_def)
    with fresh have "r \<noteq> op" by simp
    with m v mk False show ?thesis by auto
  qed
qed

lemma Call_rebuild:
  assumes "keeps_heap mut" and "type_keeps_heap hook" and "op < length (heap st)"
    and "ExprMutator_VisitExpr_Call hook mut op f args a targs st = Inr (r, st')"
  shows "\<exists>f' st1 ts st3 ys st5.
           mut f st = Inr (f', st1) \<and>
           types_rewritten hook (array_data targs) (st1\<lparr>next_array := Suc (next_array st1)\<rparr>) ts st3 \<and>
           rewritten mut (array_data args) (st3\<lparr>next_array := Suc (next_array st3)\<rparr>) ys st5 \<and>
           (r = op \<longleftrightarrow> f' = f \<and> ts = array_data targs \<and> ys = array_data args) \<and>
           (if f' = f \<and> ts = array_data targs \<and> ys = array_data args then st' = st5
            else (r, st') = make_node (CallNode f' (Array (next_array st3) ys) a
                                         (Array (next_array st1) ts)) st5)"
proof -
  from assms(4) obtain f' st1 where m: "mut f st = Inr (f', st1)"
    by (cases "mut f st") (auto simp: ExprMutator_VisitExpr_Call_def)
  let ?st2 = "st1\<lparr>next_array := Suc (next_array st1)\<rparr>"
  from assms(4) m obtain tacc flag st3 where
    tl: "Call_ty_args hook (array_data targs) (Array (next_array st1) []) (f = f') ?st2 = Inr (tacc, flag, st3)"
    by (cases "Call_ty_args hook (array_data targs) (Array (next_array st1) []) (f = f') ?st2")
       (auto simp: ExprMutator_VisitExpr_Call_def Array_new_def)
  let ?st4 = "st3\<lparr>next_array := Suc (next_array st3)\<rparr>"
  from assms(4) m tl obtain acc flag' st5 where
    al: "Mutate_each mut (array_data args) (Array (next_array st3) []) flag ?st4 = Inr (acc, flag', st5)"
    by (cases "Mutate_each mut (array_data args) (Array (next_array st3) []) flag ?st4")
       (auto simp: ExprMutator_VisitExpr_Call_def Array_new_def)
  with assms(4) m tl have
    res: "(if flag' then Inr (op, st5) else Inr (make_node (CallNode f' acc a tacc) st5)) = Inr (r, st')"
    by (simp add: ExprMutator_VisitExpr_Call_def Array_new_def split: if_splits)
  from Call_ty_args_rewritten[OF tl] obtain ts where
    ts: "types_rewritten hook (array_data targs) ?st2 ts st3" "tacc = Array (next_array st1) ts"
      "flag \<longleftrightarrow> f = f' \<and> ts = array_data targs"
    by auto
  from Mutate_each_rewritten[OF al] obtain ys where
    ys: "rewritten mut (array_data args) ?st4 ys st5" "acc = Array (next_array st3) ys"
      "flag' \<longleftrightarrow> flag \<and> ys = array_data args"
    by auto
  have "length (heap st) \<le> length (heap st1)" using keeps_heapD[OF assms(1) m] .
  moreover have "length (heap ?st2) \<le> length (heap st3)"
    using ts(1) assms(2) by (rule types_rewritten_keeps_heap)
  moreover have "length (heap ?st4) \<le> length (heap st5)"
    using ys(1) assms(1) by (rule rewritten_keeps_heap)
  ultimately have fresh: "op \<noteq> length (heap st5)" using assms(3) by simp
  have flag': "flag' \<longleftrightarrow> f' = f \<and> ts = array_data targs \<and> ys = array_data args"
    using ts(3) ys(3) by auto
  show ?thesis
  proof (cases flag')
    case True
    with res have "r = op" "st' = st5" by auto
    with m ts(1) ys(1) flag' True show ?thesis
      by (intro exI[of _ f'] exI[of _ st1] exI[of _ ts] exI[of _ st3] exI[of _ ys] exI[of _ st5])
         simp
  next
    case False
    with res have mk: "(r, st') = make_node (CallNode f' acc a tacc) st5" by auto
    then have "r = length (heap st5)" by (simp add: make_node_def)
    with fresh have "r \<noteq> op" by simp
    with m ts(1,2) ys(1,2) mk flag' False show ?thesis
      by (intro exI[of _ f'] exI[of _ st1] exI[of _ ts] exI[of _ st3] exI[of _ ys] exI[of _ st5])
         auto
  qed
qed

text \<open>The converse: when the children are rewritten, the rewrite returns.\<close>

lemma Mutate_each_returns_rewritten:
  "rewritten mut xs st ys st' \<Longrightarrow>
   Mutate_each mut xs acc flag st =
     Inr (Array (array_node acc) (array_data acc @ ys), flag \<and> ys = xs, st')"
proof (induction arbitrary: acc flag rule: rewritten.induct)
  case (rewritten_Nil st)
  show ?case by (cases acc) simp
next
  case (rewritten_Cons x st y st1 xs ys st')
  from rewritten_Cons.hyps(1) rewritten_Cons.IH[of "push_back acc y" "flag \<and> y = x"]
  show ?case by (auto simp: push_back_def)
qed

lemma Call_ty_args_returns_rewritten:
  "types_rewritten hook ts st ys st' \<Longrightarrow>
   Call_ty_args hook ts acc flag st =
     Inr (Array (array_node acc) (array_data acc @ ys), flag \<and> ys = ts, st')"
proof (induction arbitrary: acc flag rule: types_rewritten.induct)
  case (types_rewritten_Nil st)
  show ?case by (cases acc) simp
next
  case (types_rewritten_Cons t st t' st1 ts ts' st')
  from types_rewritten_Cons.hyps(1) types_rewritten_Cons.IH[of "push_back acc t'" "flag \<and> t' = t"]
  show ?case by (auto simp: push_back_def)
qed

lemma Tuple_returns_rewritten:
  assumes "rewritten mut (array_data fs) (st\<lparr>next_array := Suc (next_array st)\<rparr>) ys st1"
  shows "ExprMutator_VisitExpr_Tuple mut op fs st =
           (if ys = array_data fs then Inr (op, st1)
            else Inr (make_node (TupleNode (Array (next_array st) ys)) st1))"
  using Mutate_each_returns_rewritten[OF assms, of "Array (next_array st) []" True]
  by (simp add: ExprMutator_VisitExpr_Tuple_def Array_new_def)

lemma TupleGetItem_returns_rewritten:
  assumes "mut t st = Inr (t', st1)"
  shows "ExprMutator_VisitExpr_TupleGetItem mut op t i st =
           (if t' = t then Inr (op, st1) else Inr (make_node (TupleGetItemNode t' i) st1))"
  using assms by (auto simp: ExprMutator_VisitExpr_TupleGetItem_def)

lemma If_returns_rewritten:
  assumes "mut c st = Inr (c', st1)" and "mut t st1 = Inr (t', st2)"
    and "mut f st2 = Inr (f', st3)"
  shows "ExprMutator_VisitExpr_If mut op c t f st =
           (if c' = c \<and> t' = t \<and> f' = f then Inr (op, st3)
            else Inr (make_node (IfNode c' t' f') st3))"
  using assms by (auto simp: ExprMutator_VisitExpr_If_def)

lemma Let_returns_rewritten:
  assumes "mut var st = Inr (var', st1)" and "is_Var (heap st1) var'"
    and "mut v st1 = Inr (v', st2)" and "mut body st2 = Inr (body', st3)"
  shows "ExprMutator_VisitExpr_Let mut op var v body st =
           (if var' = var \<and> v' = v \<and> body' = body then Inr (op, st3)
            else Inr (make_node (LetNode var' v' body') st3))"
proof -
  from assms(2) have "Downcast_Var var' st1 = Inr var'" by (simp add: Downcast_Var_iff)
  with assms(1,3,4) show ?thesis by (auto simp: ExprMutator_VisitExpr_Let_def)
qed

lemma Call_returns_rewritten:
  assumes "mut f st = Inr (f', st1)"
    and "types_rewritten hook (array_data targs) (st1\<lparr>next_array := Suc (next_array st1)\<rparr>) ts st3"
    and "rewritten mut (array_data args) (st3\<lparr>next_array := Suc (next_array st3)\<rparr>) ys st5"
  shows "ExprMutator_VisitExpr_Call hook mut op f args a targs st =
           (if f' = f \<and> ts = array_data targs \<and> ys = array_data args then Inr (op, st5)
            else Inr (make_node (CallNode f' (Array (next_array st3) ys) a
                                   (Array (next_array st1) ts)) st5))"
  using assms(1)
    Call_ty_args_returns_rewritten[OF assms(2), of "Array (next_array st1) []" "f = f'"]
    Mutate_each_returns_rewritten[OF assms(3), of "Array (next_array st3) []"
      "f = f' \<and> ts = array_data targs"]
  by (auto simp: ExprMutator_VisitExpr_Call_def Array_new_def)

text \<open>
  C3. For the Tuple, Call, Let, If and TupleGetItem rewrites, with any rewriting function
  and type hook that release no node, on a node \<open>op\<close> of the store.  The rewrite returns
  exactly when the rewrites of its children return (for Call: the callee, the type
  arguments, the arguments; for Let: the bound variable, which must come back a Var, the
  value, the body), one after the other on the state the one before has left.  It then
  returns the original reference \<open>op\<close> if and only if every rewritten child is the
  original one, and in that case builds nothing; otherwise it returns a new node of the
  same kind that carries the rewritten children (and, for Call, the original attributes;
  for TupleGetItem, the original index).
\<close>

theorem rebuild_iff_child_changed:
  assumes "keeps_heap mut" and "type_keeps_heap hook" and "op < length (heap st)"
  shows
    "(\<forall>r st'. ExprMutator_VisitExpr_Tuple mut op fs st = Inr (r, st') \<longleftrightarrow>
        (\<exists>ys st1.
           rewritten mut (array_data fs) (st\<lparr>next_array := Suc (next_array st)\<rparr>) ys st1 \<and>
           (r = op \<longleftrightarrow> ys = array_data fs) \<and>
           (if ys = array_data fs then st' = st1
            else (r, st') = make_node (TupleNode (Array (next_array st) ys)) st1))) \<and>
     (\<forall>r st'. ExprMutator_VisitExpr_Call hook mut op f args a targs st = Inr (r, st') \<longleftrightarrow>
        (\<exists>f' st1 ts st3 ys st5.
           mut f st = Inr (f', st1) \<and>
           types_rewritten hook (array_data targs)
             (st1\<lparr>next_array := Suc (next_array st1)\<rparr>) ts st3 \<and>
           rewritten mut (array_data args) (st3\<lparr>next_array := Suc (next_array st3)\<rparr>) ys st5 \<and>
           (r = op \<longleftrightarrow> f' = f \<and> ts = array_data targs \<and> ys = array_data args) \<and>
           (if f' = f \<and> ts = array_data targs \<and> ys = array_data args then st' = st5
            else (r, st') = make_node (CallNode f' (Array (next_array st3) ys) a
                                         (Array (next_array st1) ts)) st5))) \<and>
     (\<forall>r st'. ExprMutator_VisitExpr_Let mut op var v body st = Inr (r, st') \<longleftrightarrow>
        (\<exists>var' st1 v' st2 body' st3.
           mut var st = Inr (var', st1) \<and> is_Var (heap st1) var' \<and>
           mut v st1 = Inr (v', st2) \<and> mut body st2 = Inr (body', st3) \<and>
           (r = op \<longleftrightarrow> var' = var \<and> v' = v \<and> body' = body) \<and>
           (if var' = var \<and> v' = v \<and> body' = body then st' = st3
            else (r, st') = make_node (LetNode var' v' body') st3))) \<and>
     (\<forall>r st'. ExprMutator_VisitExpr_If mut op c t e st = Inr (r, st') \<longleftrightarrow>
        (\<exists>c' st1 t' st2 e' st3.
           mut c st = Inr (c', st1) \<and> mut t st1 = Inr (t', st2) \<and> mut e st2 = Inr (e', st3) \<and>
           (r = op \<longleftrightarrow> c' = c \<and> t' = t \<and> e' = e) \<and>
           (if c' = c \<and> t' = t \<and> e' = e then st' = st3
            else (r, st') = make_node (IfNode c' t' e') st3))) \<and>
     (\<forall>r st'. ExprMutator_VisitExpr_TupleGetItem mut op tup i st = Inr (r, st') \<longleftrightarrow>
        (\<exists>t' st1. mut tup st = Inr (t', st1) \<and> (r = op \<longleftrightarrow> t' = tup) \<and>
           (if t' = tup then st' = st1
            else (r, st') = make_node (TupleGetItemNode t' i) st1)))"
proof (intro conjI allI iffI)
  fix r st'
  assume "ExprMutator_VisitExpr_Tuple mut op fs st = Inr (r, st')"
  with assms(1,3) show "\<exists>ys st1.
           rewritten mut (array_data fs) (st\<lparr>next_array := Suc (next_array st)\<rparr>) ys st1 \<and>
           (r = op \<longleftrightarrow> ys = array_data fs) \<and>
           (if ys = array_data fs then st' = st1
            else (r, st') = make_node (TupleNode (Array (next_array st) ys)) st1)"
    by (rule Tuple_rebuild)
next
  fix r st'
  assume "\<exists>ys st1.
           rewritten mut (array_data fs) (st\<lparr>next_array := Suc (next_array st)\<rparr>) ys st1 \<and>
           (r = op \<longleftrightarrow> ys = array_data fs) \<and>
           (if ys = array_data fs then st' = st1
            else (r, st') = make_node (TupleNode (Array (next_array st) ys)) st1)"
  then obtain ys st1 where
    rw: "rewritten mut (array_data fs) (st\<lparr>next_array := Suc (next_array st)\<rparr>) ys st1"
    and eq: "r = op \<longleftrightarrow> ys = array_data fs"
    and res: "if ys = array_data fs then st' = st1
            else (r, st') = make_node (TupleNode (Array (next_array st) ys)) st1"
    by blast
  from eq res show "ExprMutator_VisitExpr_Tuple mut op fs st = Inr (r, st')"
    unfolding Tuple_returns_rewritten[OF rw] by (cases "ys = array_data fs") simp_all
next
  fix r st'
  assume "ExprMutator_VisitExpr_Call hook mut op f args a targs st = Inr (r, st')"
  with assms show "\<exists>f' st1 ts st3 ys st5.
           mut f st = Inr (f', st1) \<and>
           types_rewritten hook (array_data targs)
             (st1\<lparr>next_array := Suc (next_array st1)\<rparr>) ts st3 \<and>
           rewritten mut (array_data args) (st3\<lparr>next_array := Suc (next_array st3)\<rparr>) ys st5 \<and>
           (r = op \<longleftrightarrow> f' = f \<and> ts = array_data targs \<and> ys = array_data args) \<and>
           (if f' = f \<and> ts = array_data targs \<and> ys = array_data args then st' = st5
            else (r, st') = make_node (CallNode f' (Array (next_array st3) ys) a
                                         (Array (next_array st1) ts)) st5)"
    by (rule Call_rebuild)
next
  fix r st'
  assume "\<exists>f' st1 ts st3 ys st5.
           mut f st = Inr (f', st1) \<and>
           types_rewritten hook (array_data targs)
             (st1\<lparr>next_array := Suc (next_array st1)\<rparr>) ts st3 \<and>
           rewritten mut (array_data args) (st3\<lparr>next_array := Suc (next_array st3)\<rparr>) ys st5 \<and>
           (r = op \<longleftrightarrow> f' = f \<and> ts = array_data targs \<and> ys = array_data args) \<and>
           (if f' = f \<and> ts = array_data targs \<and> ys = array_data args then st' = st5
            else (r, st') = make_node (CallNode f' (Array (next_array st3) ys) a
                                         (Array (next_array st1) ts)) st5)"
  then obtain f' st1 ts st3 ys st5 where
    m: "mut f st = Inr (f', st1)"
    and tw: "types_rewritten hook (array_data targs)
             (st1\<lparr>next_array := Suc (next_array st1)\<rparr>) ts st3"
    and rw: "rewritten mut (array_data args) (st3\<lparr>next_array := Suc (next_array st3)\<rparr>) ys st5"
    and eq: "r = op \<longleftrightarrow> f' = f \<and> ts = array_data targs \<and> ys = array_data args"
    and res: "if f' = f \<and> ts = array_data targs \<and> ys = array_data args then st' = st5
            else (r, st') = make_node (CallNode f' (Array (next_array st3) ys) a
                                         (Array (next_array st1) ts)) st5"
    by blast
  from eq res show "ExprMutator_VisitExpr_Call hook mut op f args a targs st = Inr (r, st')"
    unfolding Call_returns_rewritten[OF m tw rw]
    by (cases "f' = f \<and> ts = array_data targs \<and> ys = array_data args") auto
next
  fix r st'
  assume "ExprMutator_VisitExpr_Let mut op var v body st = Inr (r, st')"
  with assms(1,3) show "\<exists>var' st1 v' st2 body' st3.
           mut var st = Inr (var', st1) \<and> is_Var (heap st1) var' \<and>
           mut v st1 = Inr (v', st2) \<and> mut body st2 = Inr (body', st3) \<and>
           (r = op \<longleftrightarrow> var' = var \<and> v' = v \<and> body' = body) \<and>
           (if var' = var \<and> v' = v \<and> body' = body then st' = st3
            else (r, st') = make_node (LetNode var' v' body') st3)"
    by (rule Let_rebuild)
next
  fix r st'
  assume "\<exists>var' st1 v' st2 body' st3.
           mut var st = Inr (var', st1) \<and> is_Var (heap st1) var' \<and>
           mut v st1 = Inr (v', st2) \<and> mut body st2 = Inr (body', st3) \<and>
           (r = op \<longleftrightarrow> var' = var \<and> v' = v \<and> body' = body) \<and>
           (if var' = var \<and> v' = v \<and> body' = body then st' = st3
            else (r, st') = make_node (LetNode var' v' body') st3)"
  then obtain var' st1 v' st2 body' st3 where
    m: "mut var st = Inr (var', st1)" "is_Var (heap st1) var'"
      "mut v st1 = Inr (v', st2)" "mut body st2 = Inr (body', st3)"
    and eq: "r = op \<longleftrightarrow> var' = var \<and> v' = v \<and> body' = body"
    and res: "if var' = var \<and> v' = v \<and> body' = body then st' = st3
            else (r, st') = make_node (LetNode var' v' body') st3"
    by blast
  from eq res show "ExprMutator_VisitExpr_Let mut op var v body st = Inr (r, st')"
    unfolding Let_returns_rewritten[OF m]
    by (cases "var' = var \<and> v' = v \<and> body' = body") auto
next
  fix r st'
  assume "ExprMutator_VisitExpr_If mut op c t e st = Inr (r, st')"
  with assms(1,3) show "\<exists>c' st1 t' st2 e' st3.
           mut c st = Inr (c', st1) \<and> mut t st1 = Inr (t', st2) \<and> mut e st2 = Inr (e', st3) \<and>
           (r = op \<longleftrightarrow> c' = c \<and> t' = t \<and> e' = e) \<and>
           (if c' = c \<and> t' = t \<and> e' = e then st' = st3
            else (r, st') = make_node (IfNode c' t' e') st3)"
    by (rule If_rebuild)
next
  fix r st'
  assume "\<exists>c' st1 t' st2 e' st3.
           mut c st = Inr (c', st1) \<and> mut t st1 = Inr (t', st2) \<and> mut e st2 = Inr (e', st3) \<and>
           (r = op \<longleftrightarrow> c' = c \<and> t' = t \<and> e' = e) \<and>
           (if c' = c \<and> t' = t \<and> e' = e then st' = st3
            else (r, st') = make_node (IfNode c' t' e') st3)"
  then obtain c' st1 t' st2 e' st3 where
    m: "mut c st = Inr (c', st1)" "mut t st1 = Inr (t', st2)" "mut e st2 = Inr (e', st3)"
    and eq: "r = op \<longleftrightarrow> c' = c \<and> t' = t \<and> e' = e"
    and res: "if c' = c \<and> t' = t \<and> e' = e then st' = st3
            else (r, st') = make_node (IfNode c' t' e') st3"
    by blast
  from eq res show "ExprMutator_VisitExpr_If mut op c t e st = Inr (r, st')"
    unfolding If_returns_rewritten[OF m]
    by (cases "c' = c \<and> t' = t \<and> e' = e") auto
next
  fix r st'
  assume "ExprMutator_VisitExpr_TupleGetItem mut op tup i st = Inr (r, st')"
  with assms(1,3) show "\<exists>t' st1. mut tup st = Inr (t', st1) \<and> (r = op \<longleftrightarrow> t' = tup) \<and>
           (if t' = tup then st' = st1
            else (r, st') = make_node (TupleGetItemNode t' i) st1)"
    by (rule TupleGetItem_rebuild)
next
  fix r st'
  assume "\<exists>t' st1. mut tup st = Inr (t', st1) \<and> (r = op \<longleftrightarrow> t' = tup) \<and>
           (if t' = tup then st' = st1
            else (r, st') = make_node (TupleGetItemNode t' i) st1)"
  then obtain t' st1 where m: "mut tup st = Inr (t', st1)"
    and eq: "r = op \<longleftrightarrow> t' = tup"
    and res: "if t' = tup then st' = st1
            else (r, st') = make_node (TupleGetItemNode t' i) st1"
    by blast
  from eq res show "ExprMutator_VisitExpr_TupleGetItem mut op tup i st = Inr (r, st')"
    unfolding TupleGetItem_returns_rewritten[where mut = mut and t = tup and st = st, OF m]
    by (cases "t' = tup") simp_all
qed

lemma type_keeps_heap_ExprMutator_VisitType: "type_keeps_heap ExprMutator_VisitType"
  by (simp add: type_keeps_heap_def ExprMutator_VisitType_def)

theorem rebuild_iff_child_changed_witness:
  "keeps_heap (Mutate ReplaceConstant 3 :: unit mutate_fn) \<and>
   type_keeps_heap (ExprMutator_VisitType :: unit type_fn) \<and>
   3 < length (heap (new_mutator rebuild_graph 4 ())) \<and>
   ExprMutator_VisitExpr_Tuple (Mutate ReplaceConstant 3) 3 (Array 0 [0, 1])
       (new_mutator rebuild_graph 4 ()) =
     Inr (11, \<lparr>heap = rebuild_graph @ [ConstantNode 42, TupleNode (Array 4 [0, 10])],
               next_array = 5, memo = [0 \<mapsto> 0, 1 \<mapsto> 10], user = ()\<rparr>) \<and>
   ExprMutator_VisitExpr_Tuple (Mutate ReplaceConstant 3) 8 (Array 3 [0, 2])
       (new_mutator rebuild_graph 4 ()) =
     Inr (8, \<lparr>heap = rebuild_graph, next_array = 5, memo = [0 \<mapsto> 0, 2 \<mapsto> 2], user = ()\<rparr>) \<and>
   ExprMutator_VisitExpr_Call ExprMutator_VisitType (Mutate ReplaceConstant 3) 4 0 (Array 1 [1]) 5
       (Array 2 []) (new_mutator rebuild_graph 4 ()) =
     Inr (11, \<lparr>heap = rebuild_graph @ [ConstantNode 42, CallNode 0 (Array 5 [10]) 5 (Array 4 [])],
               next_array = 6, memo = [0 \<mapsto> 0, 1 \<mapsto> 10], user = ()\<rparr>) \<and>
   ExprMutator_VisitExpr_Let (Mutate ReplaceConstant 3) 5 0 1 2 (new_mutator rebuild_graph 4 ()) =
     Inr (11, \<lparr>heap = rebuild_graph @ [ConstantNode 42, LetNode 0 10 2], next_array = 4,
               memo = [0 \<mapsto> 0, 1 \<mapsto> 10, 2 \<mapsto> 2], user = ()\<rparr>) \<and>
   ExprMutator_VisitExpr_If (Mutate ReplaceConstant 3) 6 0 2 1 (new_mutator rebuild_graph 4 ()) =
     Inr (11, \<lparr>heap = rebuild_graph @ [ConstantNode 42, IfNode 0 2 10], next_array = 4,
               memo = [0 \<mapsto> 0, 2 \<mapsto> 2, 1 \<mapsto> 10], user = ()\<rparr>) \<and>
   ExprMutator_VisitExpr_TupleGetItem (Mutate ReplaceConstant 3) 7 3 0
       (new_mutator rebuild_graph 4 ()) =
     Inr (12, \<lparr>heap = rebuild_graph @
                 [ConstantNode 42, TupleNode (Array 4 [0, 10]), TupleGetItemNode 11 0],
               next_array = 5, memo = [0 \<mapsto> 0, 1 \<mapsto> 10, 3 \<mapsto> 11], user = ()\<rparr>) \<and>
   ExprMutator_VisitExpr_TupleGetItem (Mutate ReplaceConstant 3) 9 8 1
       (new_mutator rebuild_graph 4 ()) =
     Inr (9, \<lparr>heap = rebuild_graph, next_array = 5, memo = [0 \<mapsto> 0, 2 \<mapsto> 2, 8 \<mapsto> 8],
              user = ()\<rparr>)"
proof -
  have k: "keeps_heap (Mutate ReplaceConstant 3 :: unit mutate_fn)"
    using ReplaceConstant_child_local[where obs = "\<lambda>u :: unit. ()"] by (rule Mutate_keeps_heap)
  note defs = eval_nat_numeral ReplaceConstant_def rebuild_graph_def new_mutator_def
      ExprMutator_VisitExpr_def ExprFunctor_VisitExpr_def
      ExprMutator_VisitExpr_Tuple_def ExprMutator_VisitExpr_Call_def
      ExprMutator_VisitExpr_Let_def ExprMutator_VisitExpr_If_def
      ExprMutator_VisitExpr_TupleGetItem_def ExprMutator_VisitExpr_Var_def
      ExprMutator_VisitType_def make_node_def Downcast_Var_def Array_new_def push_back_def
  have l: "3 < length (heap (new_mutator rebuild_graph 4 ()))"
    by (simp add: new_mutator_def rebuild_graph_def)
  have 1: "ExprMutator_VisitExpr_Tuple (Mutate ReplaceConstant 3) 3 (Array 0 [0, 1])
       (new_mutator rebuild_graph 4 ()) =
     Inr (11, \<lparr>heap = rebuild_graph @ [ConstantNode 42, TupleNode (Array 4 [0, 10])],
               next_array = 5, memo = [0 \<mapsto> 0, 1 \<mapsto> 10], user = ()\<rparr>)"
    by (simp add: defs)
  have 2: "ExprMutator_VisitExpr_Tuple (Mutate ReplaceConstant 3) 8 (Array 3 [0, 2])
       (new_mutator rebuild_graph 4 ()) =
     Inr (8, \<lparr>heap = rebuild_graph, next_array = 5, memo = [0 \<mapsto> 0, 2 \<mapsto> 2], user = ()\<rparr>)"
    by (simp add: defs)
  have 3: "ExprMutator_VisitExpr_Call ExprMutator_VisitType (Mutate ReplaceConstant 3) 4 0 (Array 1 [1]) 5
       (Array 2 []) (new_mutator rebuild_graph 4 ()) =
     Inr (11, \<lparr>heap = rebuild_graph @ [ConstantNode 42, CallNode 0 (Array 5 [10]) 5 (Array 4 [])],
               next_array = 6, memo = [0 \<mapsto> 0, 1 \<mapsto> 10], user = ()\<rparr>)"
    by (simp add: defs)
  have 4: "ExprMutator_VisitExpr_Let (Mutate ReplaceConstant 3) 5 0 1 2 (new_mutator rebuild_graph 4 ()) =
     Inr (11, \<lparr>heap = rebuild_graph @ [ConstantNode 42, LetNode 0 10 2], next_array = 4,
               memo = [0 \<mapsto> 0, 1 \<mapsto> 10, 2 \<mapsto> 2], user = ()\<rparr>)"
    by (simp add: defs)
  have 5: "ExprMutator_VisitExpr_If (Mutate ReplaceConstant 3) 6 0 2 1 (new_mutator rebuild_graph 4 ()) =
     Inr (11, \<lparr>heap = rebuild_graph @ [ConstantNode 42, IfNode 0 2 10], next_array = 4,
               memo = [0 \<mapsto> 0, 2 \<mapsto> 2, 1 \<mapsto> 10], user = ()\<rparr>)"
    by (simp add: defs)
  have l7: "7 < length (heap (new_mutator rebuild_graph 4 ()))"
    by (simp add: new_mutator_def rebuild_graph_def)
  have m: "Mutate ReplaceConstant 3 3 (new_mutator rebuild_graph 4 ()) =
     Inr (11, \<lparr>heap = rebuild_graph @ [ConstantNode 42, TupleNode (Array 4 [0, 10])],
               next_array = 5, memo = [0 \<mapsto> 0, 1 \<mapsto> 10, 3 \<mapsto> 11], user = ()\<rparr>)"
    by (simp add: defs)
  note t = rebuild_iff_child_changed [OF k type_keeps_heap_ExprMutator_VisitType l7,
      where tup = 3 and i = 0, THEN conjunct2, THEN conjunct2, THEN conjunct2, THEN conjunct2,
      rule_format, of 12
      "\<lparr>heap = rebuild_graph @
                 [ConstantNode 42, TupleNode (Array 4 [0, 10]), TupleGetItemNode 11 0],
               next_array = 5, memo = [0 \<mapsto> 0, 1 \<mapsto> 10, 3 \<mapsto> 11], user = ()\<rparr>"]
  have 6: "ExprMutator_VisitExpr_TupleGetItem (Mutate ReplaceConstant 3) 7 3 0
       (new_mutator rebuild_graph 4 ()) =
     Inr (12, \<lparr>heap = rebuild_graph @
                 [ConstantNode 42, TupleNode (Array 4 [0, 10]), TupleGetItemNode 11 0],
               next_array = 5, memo = [0 \<mapsto> 0, 1 \<mapsto> 10, 3 \<mapsto> 11], user = ()\<rparr>)"
    unfolding t m by (simp add: make_node_def rebuild_graph_def)
  have 7: "ExprMutator_VisitExpr_TupleGetItem (Mutate ReplaceConstant 3) 9 8 1
       (new_mutator rebuild_graph 4 ()) =
     Inr (9, \<lparr>heap = rebuild_graph, next_array = 5, memo = [0 \<mapsto> 0, 2 \<mapsto> 2, 8 \<mapsto> 8],
              user = ()\<rparr>)"
    by (simp add: defs)
  from k type_keeps_heap_ExprMutator_VisitType l 1 2 3 4 5 6 7 show ?thesis
    by (simp del: Mutate.simps)
qed

subsection \<open>The Function rewrite\<close>

lemma Function_ty_params_node:
  "Function_ty_params hook xs acc flag st = Inr (acc', flag', st') \<Longrightarrow>
   array_node acc' = array_node acc"
  by (induction xs arbitrary: acc flag st) (auto simp: push_back_def split: sum.splits)

text \<open>
  Whenever the container of the node's type parameters was built before the rewrite
  starts, the container \<open>ty_params\<close> that the rewrite builds is another one, the final
  test fails, and the rewrite that returns has built a new Function node: whether anything
  changed plays no part.
\<close>

lemma Function_always_rebuilt:
  assumes "array_node type_params < next_array st"
    and "ExprMutator_VisitExpr_Function hook mut op params body ret_type type_params a st =
           Inr (r, st')"
  shows "\<exists>new_params new_body new_ret_type new_ty_params st5.
           (r, st') =
           make_node (FunctionNode new_params new_body new_ret_type new_ty_params a) st5"
proof -
  let ?st0 = "st\<lparr>next_array := Suc (next_array st)\<rparr>"
  from assms(2) obtain tps f1 st1 where
    tl: "Function_ty_params hook (array_data type_params) (Array (next_array st) []) True ?st0 =
           Inr (tps, f1, st1)"
    by (cases "Function_ty_params hook (array_data type_params) (Array (next_array st) []) True ?st0")
       (auto simp: ExprMutator_VisitExpr_Function_def Array_new_def)
  from Function_ty_params_node[OF tl] assms(1)
  have ne: "\<not> array_same_as tps type_params" by (simp add: array_same_as_def)
  from assms(2) tl ne obtain new_params new_body new_ret_type st5 where
    "make_node (FunctionNode new_params new_body new_ret_type tps a) st5 = (r, st')"
    by (auto simp: ExprMutator_VisitExpr_Function_def Array_new_def split: sum.splits prod.splits)
  then have "(r, st') = make_node (FunctionNode new_params new_body new_ret_type tps a) st5"
    by simp
  then show ?thesis by blast
qed

text \<open>
  C4. The specification says that a Function whose rewritten type parameters,
  parameters, return type and body are all the originals is returned by identity.  The
  code does otherwise: on the Function at reference 1 of \<open>function_graph\<close> (no
  parameters, no type parameters, undefined return type, the constant at 0 as body) the
  body is rewritten to itself, the return type to itself, and the rewrite still returns
  the new reference 2, a new Function node that holds two new, empty containers and the
  original attributes.
\<close>

theorem Function_rebuilt_when_unchanged:
  "Mutate ExprMutator 1 0 (new_mutator function_graph 4 ()) =
     Inr (0, \<lparr>heap = function_graph, next_array = 4, memo = [0 \<mapsto> 0], user = ()\<rparr>) \<and>
   ExprMutator_VisitType None
       \<lparr>heap = function_graph, next_array = 4, memo = Map.empty, user = ()\<rparr> =
     Inr (None, \<lparr>heap = function_graph, next_array = 4, memo = Map.empty, user = ()\<rparr>) \<and>
   ExprMutator_VisitExpr_Function ExprMutator_VisitType (Mutate ExprMutator 1) 1
       (Array 0 []) 0 None (Array 1 []) 7 (new_mutator function_graph 2 ()) =
     Inr (2, \<lparr>heap = function_graph @ [FunctionNode (Array 3 []) 0 None (Array 2 []) 7],
              next_array = 4, memo = [0 \<mapsto> 0], user = ()\<rparr>)"
  by (simp add: ExprMutator_def new_mutator_def function_graph_def ExprMutator_VisitType_def
      ExprMutator_VisitExpr_Function_def ExprMutator_VisitExpr_def ExprFunctor_VisitExpr_def
      ExprMutator_VisitExpr_Constant_def Array_new_def array_same_as_def make_node_def)

text \<open>
  C5. The specification says that the base mutator returns every root by identity.  The
  code does otherwise on a root that is a Function: \<open>Mutate\<close> with the base class on
  the root 1 of \<open>function_graph\<close> returns the new reference 2.
\<close>

theorem default_mutator_rebuilds_Function_root:
  "Mutate ExprMutator 2 1 (new_mutator function_graph 2 ()) =
     Inr (2, \<lparr>heap = function_graph @ [FunctionNode (Array 3 []) 0 None (Array 2 []) 7],
              next_array = 4, memo = [0 \<mapsto> 0, 1 \<mapsto> 2], user = ()\<rparr>)"
  by (simp add: eval_nat_numeral ExprMutator_def new_mutator_def function_graph_def
      ExprMutator_VisitType_def
      ExprMutator_VisitExpr_Function_def ExprMutator_VisitExpr_def ExprFunctor_VisitExpr_def
      ExprMutator_VisitExpr_Constant_def Array_new_def array_same_as_def make_node_def)

subsection \<open>The order of the children of a Let\<close>

text \<open>
  C6. For every Let node, the visitor's handler calls \<^verbatim>\<open>VisitExpr\<close> on the value, then
  on the bound variable, then on the body; the mutator's handler calls \<^verbatim>\<open>Mutate\<close> on
  the bound variable, then on the value, then on the body (the bound variable being a
  Var, as the handler requires).  The recording stand-ins list the calls in order.
\<close>

theorem Let_traversal_orders:
  "ExprVisitor_VisitExpr_Let recording_visit var v body vs =
     Inr (vs\<lparr>visitor_user := visitor_user vs @ [v, var, body]\<rparr>) \<and>
   (is_Var (heap st) var \<longrightarrow>
      ExprMutator_VisitExpr_Let recording_mutate op var v body st =
        Inr (op, st\<lparr>user := user st @ [var, v, body]\<rparr>))"
  by (simp add: ExprVisitor_VisitExpr_Let_def recording_visit_def
      ExprMutator_VisitExpr_Let_def recording_mutate_def Downcast_Var_def is_Var_def
      split: node.splits)

theorem Let_traversal_orders_witness:
  "is_Var (heap (new_mutator let_graph 1 [])) 0 \<and>
   ExprVisitor_VisitExpr_Let recording_visit 0 1 3 (new_visitor []) =
     Inr \<lparr>visit_counter = Map.empty, visitor_user = [1, 0, 3]\<rparr> \<and>
   ExprMutator_VisitExpr_Let recording_mutate 4 0 1 3 (new_mutator let_graph 1 []) =
     Inr (4, \<lparr>heap = let_graph, next_array = 1, memo = Map.empty, user = [0, 1, 3]\<rparr>)"
  using Let_traversal_orders [where var = 0 and v = 1 and body = 3 and op = 4
      and vs = "new_visitor []" and st = "new_mutator let_graph 1 []"]
  by (simp add: is_Var_def new_mutator_def new_visitor_def let_graph_def)

subsection \<open>The fatal contract check\<close>

lemma Function_params_append:
  "Function_params mut (xs @ ys) acc flag st =
     (case Function_params mut xs acc flag st of
        Inl err \<Rightarrow> Inl err
      | Inr (acc', flag', st') \<Rightarrow> Function_params mut ys acc' flag' st')"
  by (induction xs arbitrary: acc flag st) (auto split: sum.splits)

text \<open>
  C7. With any rewriting function: when the rewrite of the bound variable of a Let gives
  a reference that is not a Var, the Let rewrite ends in \<open>Fatal\<close>; when the loops of the
  Function rewrite have come to a parameter (the type parameters and the parameters
  before it rewritten without failure) and the rewrite of that parameter gives a
  reference that is not a Var, the Function rewrite ends in \<open>Fatal\<close>.  No node is built.
\<close>

theorem non_Var_binder_is_fatal:
  "(mut var st = Inr (r, sta) \<longrightarrow> \<not> is_Var (heap sta) r \<longrightarrow>
      ExprMutator_VisitExpr_Let mut op var v body st = Inl Fatal) \<and>
   (Function_ty_params hook (array_data type_params) (Array (next_array st) []) True
        (st\<lparr>next_array := Suc (next_array st)\<rparr>) = Inr (ty_params, flag, stb) \<longrightarrow>
    array_data params = before @ param # rest \<longrightarrow>
    Function_params mut before (Array (next_array stb) []) True
        (stb\<lparr>next_array := Suc (next_array stb)\<rparr>) = Inr (new_params, flag', stc) \<longrightarrow>
    mut param stc = Inr (r', std) \<longrightarrow> \<not> is_Var (heap std) r' \<longrightarrow>
      ExprMutator_VisitExpr_Function hook mut op params body ret_type type_params a st =
        Inl Fatal)"
proof (intro conjI impI)
  assume "mut var st = Inr (r, sta)" and "\<not> is_Var (heap sta) r"
  then show "ExprMutator_VisitExpr_Let mut op var v body st = Inl Fatal"
    by (simp add: ExprMutator_VisitExpr_Let_def Downcast_Var_Fatal)
next
  assume tl: "Function_ty_params hook (array_data type_params) (Array (next_array st) []) True
        (st\<lparr>next_array := Suc (next_array st)\<rparr>) = Inr (ty_params, flag, stb)"
    and ps: "array_data params = before @ param # rest"
    and pl: "Function_params mut before (Array (next_array stb) []) True
        (stb\<lparr>next_array := Suc (next_array stb)\<rparr>) = Inr (new_params, flag', stc)"
    and m: "mut param stc = Inr (r', std)" and nv: "\<not> is_Var (heap std) r'"
  from m nv have "Function_params mut (param # rest) new_params flag' stc = Inl Fatal"
    by (simp add: Downcast_Var_Fatal)
  with pl have "Function_params mut (array_data params) (Array (next_array stb) []) True
        (stb\<lparr>next_array := Suc (next_array stb)\<rparr>) = Inl Fatal"
    unfolding ps Function_params_append by simp
  with tl show "ExprMutator_VisitExpr_Function hook mut op params body ret_type type_params a st =
        Inl Fatal"
    by (simp add: ExprMutator_VisitExpr_Function_def Array_new_def)
qed

theorem non_Var_binder_is_fatal_witness:
  "Mutate VarToConstant 1 0 (new_mutator let_graph 1 ()) =
     Inr (5, \<lparr>heap = let_graph @ [ConstantNode 0], next_array = 1, memo = [0 \<mapsto> 5], user = ()\<rparr>) \<and>
   \<not> is_Var (let_graph @ [ConstantNode 0]) 5 \<and>
   ExprMutator_VisitExpr_Let (Mutate VarToConstant 1) 4 0 1 3 (new_mutator let_graph 1 ()) =
     Inl Fatal \<and>
   Mutate VarToConstant 2 4 (new_mutator let_graph 1 ()) = Inl Fatal \<and>
   Mutate VarToConstant 1 0
       \<lparr>heap = identity_function_graph, next_array = 4, memo = Map.empty, user = ()\<rparr> =
     Inr (2, \<lparr>heap = identity_function_graph @ [ConstantNode 0], next_array = 4,
              memo = [0 \<mapsto> 2], user = ()\<rparr>) \<and>
   \<not> is_Var (identity_function_graph @ [ConstantNode 0]) 2 \<and>
   ExprMutator_VisitExpr_Function ExprMutator_VisitType (Mutate VarToConstant 1) 1
       (Array 0 [0]) 0 None (Array 1 []) 0 (new_mutator identity_function_graph 2 ()) =
     Inl Fatal \<and>
   Mutate VarToConstant 2 1 (new_mutator identity_function_graph 2 ()) = Inl Fatal"
proof -
  have m1: "Mutate VarToConstant 1 0 (new_mutator let_graph 1 ()) =
     Inr (5, \<lparr>heap = let_graph @ [ConstantNode 0], next_array = 1, memo = [0 \<mapsto> 5], user = ()\<rparr>)"
    by (simp add: eval_nat_numeral VarToConstant_def new_mutator_def let_graph_def
        ExprMutator_VisitExpr_def ExprFunctor_VisitExpr_def make_node_def)
  have v1: "\<not> is_Var (let_graph @ [ConstantNode 0]) 5"
    by (simp add: is_Var_def let_graph_def)
  have m2: "Mutate VarToConstant 1 0
       \<lparr>heap = identity_function_graph, next_array = 4, memo = Map.empty, user = ()\<rparr> =
     Inr (2, \<lparr>heap = identity_function_graph @ [ConstantNode 0], next_array = 4,
              memo = [0 \<mapsto> 2], user = ()\<rparr>)"
    by (simp add: eval_nat_numeral VarToConstant_def identity_function_graph_def
        ExprMutator_VisitExpr_def ExprFunctor_VisitExpr_def make_node_def)
  have v2: "\<not> is_Var (identity_function_graph @ [ConstantNode 0]) 2"
    by (simp add: is_Var_def identity_function_graph_def)
  have l: "ExprMutator_VisitExpr_Let (Mutate VarToConstant 1) 4 0 1 3 (new_mutator let_graph 1 ()) =
     Inl Fatal"
    using non_Var_binder_is_fatal [where mut = "Mutate VarToConstant 1" and var = 0
        and st = "new_mutator let_graph 1 ()" and r = 5 and op = 4 and v = 1 and body = 3
        and sta = "\<lparr>heap = let_graph @ [ConstantNode 0], next_array = 1, memo = [0 \<mapsto> 5], user = ()\<rparr>"]
      m1 v1
    by simp
  have f: "ExprMutator_VisitExpr_Function ExprMutator_VisitType (Mutate VarToConstant 1) 1
       (Array 0 [0]) 0 None (Array 1 []) 0 (new_mutator identity_function_graph 2 ()) =
     Inl Fatal"
    using non_Var_binder_is_fatal [where mut = "Mutate VarToConstant 1"
        and hook = ExprMutator_VisitType and type_params = "Array 1 []"
        and st = "new_mutator identity_function_graph 2 ()"
        and ty_params = "Array 2 []" and flag = True
        and stb = "\<lparr>heap = identity_function_graph, next_array = 3, memo = Map.empty, user = ()\<rparr>"
        and params = "Array 0 [0]" and before = "[]" and param = 0 and rest = "[]"
        and new_params = "Array 3 []" and flag' = True
        and stc = "\<lparr>heap = identity_function_graph, next_array = 4, memo = Map.empty, user = ()\<rparr>"
        and r' = 2
        and std = "\<lparr>heap = identity_function_graph @ [ConstantNode 0], next_array = 4,
              memo = [0 \<mapsto> 2], user = ()\<rparr>"
        and op = 1 and body = 0 and ret_type = None and a = 0]
      m2 v2
    by (simp add: new_mutator_def)
  have l': "Mutate VarToConstant 2 4 (new_mutator let_graph 1 ()) = Inl Fatal"
    using l
    by (simp add: eval_nat_numeral VarToConstant_def new_mutator_def let_graph_def
        ExprMutator_VisitExpr_def ExprFunctor_VisitExpr_def)
  have f': "Mutate VarToConstant 2 1 (new_mutator identity_function_graph 2 ()) = Inl Fatal"
    using f
    by (simp add: eval_nat_numeral VarToConstant_def new_mutator_def identity_function_graph_def
        ExprMutator_VisitExpr_def ExprFunctor_VisitExpr_def)
  from m1 v1 l l' m2 v2 f f' show ?thesis by (simp del: Mutate.simps)
qed

subsection \<open>The memo cache only grows\<close>

lemma memo_grows_refl: "memo_grows b st st"
  by (simp add: memo_grows_def)

lemma memo_grows_trans:
  "memo_grows b st st1 \<Longrightarrow> memo_grows b st1 st2 \<Longrightarrow> memo_grows b st st2"
  unfolding memo_grows_def
  by (meson map_le_trans prefix_order.trans subset_trans Un_least Un_upper1 Un_upper2 sup.coboundedI1)

lemma memo_grows_mono: "memo_grows b st st' \<Longrightarrow> b \<le> b' \<Longrightarrow> memo_grows b' st st'"
  unfolding memo_grows_def by auto

lemma memo_grows_next_array: "memo_grows b st (st\<lparr>next_array := k\<rparr>)"
  by (simp add: memo_grows_def)

lemma memo_grows_make_node: "(r, st') = make_node nd st \<Longrightarrow> memo_grows b st st'"
  by (simp add: memo_grows_def make_node_def)

lemma memo_grows_finish:
  "r = op \<and> st' = st1 \<or> (\<exists>nd. make_node nd st1 = (r, st')) \<Longrightarrow> memo_grows b st1 st'"
  by (auto simp: memo_grows_refl intro: memo_grows_make_node[OF sym])

lemma dag_prefix: "dag H k \<Longrightarrow> prefix H H' \<Longrightarrow> dag H' k"
  by (auto simp: dag_def prefix_def nth_append)

lemma dag_mono: "dag H k \<Longrightarrow> k' \<le> k \<Longrightarrow> dag H k'"
  by (auto simp: dag_def)

lemma memo_grows_dag: "memo_grows b st st' \<Longrightarrow> dag (heap st) k \<Longrightarrow> dag (heap st') k"
  by (auto simp: memo_grows_def intro: dag_prefix)

lemma hook_memo_grows: "hook_ok hook \<Longrightarrow> hook t st = Inr (t', st') \<Longrightarrow> memo_grows b st st'"
  unfolding hook_ok_def memo_grows_def by fastforce

lemma types_rewritten_memo_grows:
  "types_rewritten hook ts st ys st' \<Longrightarrow> hook_ok hook \<Longrightarrow> memo_grows b st st'"
proof (induction rule: types_rewritten.induct)
  case (types_rewritten_Nil st)
  show ?case by (rule memo_grows_refl)
next
  case (types_rewritten_Cons t st t' st1 ts ts' st')
  from types_rewritten_Cons.prems types_rewritten_Cons.hyps(1)
  have "memo_grows b st st1" by (rule hook_memo_grows)
  moreover have "memo_grows b st1 st'"
    using types_rewritten_Cons.IH types_rewritten_Cons.prems .
  ultimately show ?case by (rule memo_grows_trans)
qed

lemma mutates_belowD:
  "mutates_below mut b \<Longrightarrow> c < b \<Longrightarrow> dag (heap st) b \<Longrightarrow> mut c st = Inr (r, st') \<Longrightarrow>
   memo_grows b st st'"
  unfolding mutates_below_def by blast

lemma rewritten_memo_grows:
  "rewritten mut xs st ys st' \<Longrightarrow> mutates_below mut b \<Longrightarrow> \<forall>x\<in>set xs. x < b \<Longrightarrow>
   dag (heap st) b \<Longrightarrow> memo_grows b st st'"
proof (induction rule: rewritten.induct)
  case (rewritten_Nil st)
  show ?case by (rule memo_grows_refl)
next
  case (rewritten_Cons x st y st1 xs ys st')
  from rewritten_Cons.prems(2) have x: "x < b" and xs: "\<forall>x\<in>set xs. x < b" by simp_all
  have 1: "memo_grows b st st1"
    using rewritten_Cons.prems(1) x rewritten_Cons.prems(3) rewritten_Cons.hyps(1)
    by (rule mutates_belowD)
  then have "dag (heap st1) b" using rewritten_Cons.prems(3) by (rule memo_grows_dag)
  with rewritten_Cons.IH rewritten_Cons.prems(1) xs have "memo_grows b st1 st'" by blast
  with 1 show ?case by (rule memo_grows_trans)
qed

lemma Function_params_memo_grows:
  assumes "Function_params mut xs acc flag st = Inr (acc', flag', st')"
    and "mutates_below mut b" and "\<forall>x\<in>set xs. x < b" and "dag (heap st) b"
  shows "memo_grows b st st'"
proof -
  from Function_params_rewritten[OF assms(1)] obtain ys where "rewritten mut xs st ys st'" ..
  then show ?thesis using assms(2-4) by (rule rewritten_memo_grows)
qed

lemma Function_ty_params_memo_grows:
  assumes "Function_ty_params hook xs acc flag st = Inr (acc', flag', st')" and "hook_ok hook"
  shows "memo_grows b st st'"
proof -
  from Function_ty_params_rewritten[OF assms(1)]
  obtain ys where "types_rewritten hook (map Some xs) st ys st'" ..
  then show ?thesis using assms(2) by (rule types_rewritten_memo_grows)
qed

lemma Call_ty_args_memo_grows:
  assumes "Call_ty_args hook xs acc flag st = Inr (acc', flag', st')" and "hook_ok hook"
  shows "memo_grows b st st'"
proof -
  from Call_ty_args_rewritten[OF assms(1)]
  obtain ys where "types_rewritten hook xs st ys st'" by blast
  then show ?thesis using assms(2) by (rule types_rewritten_memo_grows)
qed

text \<open>
  On a store in construction order, a pass that rewrites through the children only adds
  to the memo cache, and only bindings for the expression and the nodes below it.
\<close>

lemma rewrite_chain_memo_grows:
  "rewrite_chain obs mut C st st' \<Longrightarrow> mutates_below mut b \<Longrightarrow> \<forall>c\<in>C. c < b \<Longrightarrow>
   dag (heap st) b \<Longrightarrow> memo_grows b st st'"
proof (induction rule: rewrite_chain.induct)
  case (rewrite_chain_done st)
  show ?case by (rule memo_grows_refl)
next
  case (rewrite_chain_child c st r st1 st')
  from rewrite_chain_child.prems(2) rewrite_chain_child.hyps(1) have c: "c < b" by blast
  have 1: "memo_grows b st st1"
    using rewrite_chain_child.prems(1) c rewrite_chain_child.prems(3) rewrite_chain_child.hyps(2)
    by (rule mutates_belowD)
  then have "dag (heap st1) b" using rewrite_chain_child.prems(3) by (rule memo_grows_dag)
  with rewrite_chain_child.IH rewrite_chain_child.prems(1,2) have "memo_grows b st1 st'" by blast
  with 1 show ?case by (rule memo_grows_trans)
next
  case (rewrite_chain_local st1 st st')
  from rewrite_chain_local.hyps(1,2) have 1: "memo_grows b st st1"
    by (simp add: memo_grows_def)
  then have "dag (heap st1) b" using rewrite_chain_local.prems(3) by (rule memo_grows_dag)
  with rewrite_chain_local.IH rewrite_chain_local.prems(1,2) have "memo_grows b st1 st'" by blast
  with 1 show ?case by (rule memo_grows_trans)
qed

lemma Mutate_memo_grows:
  assumes cl: "child_local obs cls"
  shows "dag (heap st) (Suc e) \<Longrightarrow> Mutate cls n e st = Inr (r, st') \<Longrightarrow>
         memo_grows (Suc e) st st'"
proof (induction n arbitrary: e st r st')
  case 0
  then show ?case by simp
next
  case (Suc n)
  let ?mut = "Mutate cls n"
  have below: "mutates_below ?mut e"
    unfolding mutates_below_def
  proof (intro allI impI)
    fix c s r' s'
    assume c: "c < e" and d: "dag (heap s) e" and m: "?mut c s = Inr (r', s')"
    from d c have "dag (heap s) (Suc c)" by (simp add: dag_mono)
    then have "memo_grows (Suc c) s s'" using m by (rule Suc.IH)
    then show "memo_grows e s s'" using c by (simp add: memo_grows_mono)
  qed
  show ?case
  proof (cases "memo st e")
    case (Some it)
    with Suc.prems(2) have "st' = st" by (simp add: ExprMutator_VisitExpr_def)
    then show ?thesis by (simp add: memo_grows_refl)
  next
    case None
    from Suc.prems(2) None obtain r1 st1 where
      d: "ExprFunctor_VisitExpr cls ?mut e st = Inr (r1, st1)"
      and res: "r = r1" "st' = st1\<lparr>memo := (memo st1)(e \<mapsto> r1)\<rparr>"
      by (cases "ExprFunctor_VisitExpr cls ?mut e st")
         (auto simp: ExprMutator_VisitExpr_def)
    from d have h: "VisitExpr_node cls (VisitType cls) ?mut e (heap st ! e) st = Inr (r1, st1)"
      by (cases "heap st ! e") (simp_all add: ExprFunctor_VisitExpr_def split: if_splits)
    from Suc.prems(1) have ch: "\<forall>c\<in>set (children (heap st ! e)). c < e"
      by (simp add: dag_def)
    from Suc.prems(1) have "dag (heap st) e" by (simp add: dag_mono)
    with child_localD[OF cl h] below ch have g: "memo_grows e st st1"
      by (rule rewrite_chain_memo_grows)
    from g have p: "prefix (heap st) (heap st1)" by (simp add: memo_grows_def)
    from g have le: "memo st \<subseteq>\<^sub>m memo st1" by (simp add: memo_grows_def)
    from g have dm: "dom (memo st1) \<subseteq> dom (memo st) \<union> {..<e}" by (simp add: memo_grows_def)
    from None have "e \<notin> dom (memo st)" by (simp add: domIff)
    with le have "memo st \<subseteq>\<^sub>m (memo st1)(e \<mapsto> r1)" by (auto simp: map_le_def)
    moreover from dm have "dom ((memo st1)(e \<mapsto> r1)) \<subseteq> dom (memo st) \<union> {..<Suc e}" by auto
    ultimately show ?thesis using p res by (simp add: memo_grows_def)
  qed
qed

lemma Mutate_mutates_below:
  assumes "child_local obs cls"
  shows "mutates_below (Mutate cls n) b"
  unfolding mutates_below_def
proof (intro allI impI)
  fix c st r st'
  assume c: "c < b" and d: "dag (heap st) b"
    and m: "Mutate cls n c st = Inr (r, st')"
  from d c have "dag (heap st) (Suc c)" by (simp add: dag_mono)
  with assms have "memo_grows (Suc c) st st'" using m by (rule Mutate_memo_grows)
  then show "memo_grows b st st'" using c by (simp add: memo_grows_mono)
qed

text \<open>The notes of an instrumented pass of this kind follow the memo cache.\<close>

lemma observed_growI:
  "memo_grows b st st' \<Longrightarrow> started (user st') = started (user st) @ s \<Longrightarrow>
   finished (user st') = finished (user st) @ f \<Longrightarrow>
   distinct s \<Longrightarrow> set s = dom (memo st') - dom (memo st) \<Longrightarrow>
   distinct (map fst f) \<Longrightarrow> set (map fst f) = dom (memo st') - dom (memo st) \<Longrightarrow>
   \<forall>k v. (k, v) \<in> set f \<longrightarrow> memo st' k = Some v \<Longrightarrow>
   observed_grow b st st'"
  unfolding observed_grow_def by (intro conjI exI[of _ s] exI[of _ f]) assumption+

lemma observed_growE:
  assumes "observed_grow b st st'"
  obtains s f where "memo_grows b st st'" and "started (user st') = started (user st) @ s"
    and "finished (user st') = finished (user st) @ f"
    and "distinct s" and "set s = dom (memo st') - dom (memo st)"
    and "distinct (map fst f)" and "set (map fst f) = dom (memo st') - dom (memo st)"
    and "\<forall>k v. (k, v) \<in> set f \<longrightarrow> memo st' k = Some v"
proof -
  from assms have 1: "memo_grows b st st'"
    and 2: "\<exists>s f. started (user st') = started (user st) @ s \<and>
        finished (user st') = finished (user st) @ f \<and>
        distinct s \<and> set s = dom (memo st') - dom (memo st) \<and>
        distinct (map fst f) \<and> set (map fst f) = dom (memo st') - dom (memo st) \<and>
        (\<forall>k v. (k, v) \<in> set f \<longrightarrow> memo st' k = Some v)"
    unfolding observed_grow_def by simp_all
  from 2 obtain s f where "started (user st') = started (user st) @ s"
    "finished (user st') = finished (user st) @ f"
    "distinct s" "set s = dom (memo st') - dom (memo st)"
    "distinct (map fst f)" "set (map fst f) = dom (memo st') - dom (memo st)"
    "\<forall>k v. (k, v) \<in> set f \<longrightarrow> memo st' k = Some v"
    by (elim exE conjE)
  with 1 show thesis by (rule that)
qed

lemma set_chain:
  fixes D0 D1 D2 :: "nat set"
  assumes "D0 \<subseteq> D1" "D1 \<subseteq> D2" "N1 = D1 - D0" "N2 = D2 - D1"
  shows "N1 \<inter> N2 = {}" and "N1 \<union> N2 = D2 - D0"
  using assms by blast+

lemma memo_grows_dom: "memo_grows b st st' \<Longrightarrow> dom (memo st) \<subseteq> dom (memo st')"
  unfolding memo_grows_def by (simp add: map_le_implies_dom_le)

lemma memo_grows_kept: "memo_grows b st st' \<Longrightarrow> memo st k = Some v \<Longrightarrow> memo st' k = Some v"
  unfolding memo_grows_def by (metis domI map_le_def)

lemma observed_grow_refl: "observed_grow b st st"
  by (rule observed_growI[where s = "[]" and f = "[]"]) (simp_all add: memo_grows_refl)

lemma observed_grow_trans:
  assumes "observed_grow b st st1" and "observed_grow b st1 st2"
  shows "observed_grow b st st2"
proof -
  from assms(1) obtain s1 f1 where 1: "memo_grows b st st1"
    "started (user st1) = started (user st) @ s1" "finished (user st1) = finished (user st) @ f1"
    "distinct s1" "set s1 = dom (memo st1) - dom (memo st)"
    "distinct (map fst f1)" "set (map fst f1) = dom (memo st1) - dom (memo st)"
    "\<forall>k v. (k, v) \<in> set f1 \<longrightarrow> memo st1 k = Some v"
    by (rule observed_growE)
  from assms(2) obtain s2 f2 where 2: "memo_grows b st1 st2"
    "started (user st2) = started (user st1) @ s2" "finished (user st2) = finished (user st1) @ f2"
    "distinct s2" "set s2 = dom (memo st2) - dom (memo st1)"
    "distinct (map fst f2)" "set (map fst f2) = dom (memo st2) - dom (memo st1)"
    "\<forall>k v. (k, v) \<in> set f2 \<longrightarrow> memo st2 k = Some v"
    by (rule observed_growE)
  note sc = set_chain[OF memo_grows_dom[OF 1(1)] memo_grows_dom[OF 2(1)] 1(5) 2(5)]
  note fc = set_chain[OF memo_grows_dom[OF 1(1)] memo_grows_dom[OF 2(1)] 1(7) 2(7)]
  show ?thesis
  proof (rule observed_growI[where s = "s1 @ s2" and f = "f1 @ f2"])
    show "memo_grows b st st2" using 1(1) 2(1) by (rule memo_grows_trans)
    show "started (user st2) = started (user st) @ s1 @ s2" using 1(2) 2(2) by simp
    show "finished (user st2) = finished (user st) @ f1 @ f2" using 1(3) 2(3) by simp
    show "distinct (s1 @ s2)" using 1(4) 2(4) sc(1) by simp
    show "set (s1 @ s2) = dom (memo st2) - dom (memo st)" using sc(2) by simp
    show "distinct (map fst (f1 @ f2))" using 1(6) 2(6) fc(1) by simp
    show "set (map fst (f1 @ f2)) = dom (memo st2) - dom (memo st)" using fc(2) by simp
    show "\<forall>k v. (k, v) \<in> set (f1 @ f2) \<longrightarrow> memo st2 k = Some v"
    proof (intro allI impI)
      fix k v assume "(k, v) \<in> set (f1 @ f2)"
      then consider "(k, v) \<in> set f1" | "(k, v) \<in> set f2" by auto
      then show "memo st2 k = Some v"
      proof cases
        case 1
        with \<open>\<forall>k v. (k, v) \<in> set f1 \<longrightarrow> memo st1 k = Some v\<close> have "memo st1 k = Some v" by blast
        with 2(1) show ?thesis by (rule memo_grows_kept)
      next
        case 2
        with \<open>\<forall>k v. (k, v) \<in> set f2 \<longrightarrow> memo st2 k = Some v\<close> show ?thesis by blast
      qed
    qed
  qed
qed

lemma observed_grow_mono:
  assumes "observed_grow b st st'" and "b \<le> b'"
  shows "observed_grow b' st st'"
proof -
  from assms(1) obtain s f where 1: "memo_grows b st st'"
    "started (user st') = started (user st) @ s" "finished (user st') = finished (user st) @ f"
    "distinct s" "set s = dom (memo st') - dom (memo st)"
    "distinct (map fst f)" "set (map fst f) = dom (memo st') - dom (memo st)"
    "\<forall>k v. (k, v) \<in> set f \<longrightarrow> memo st' k = Some v"
    by (rule observed_growE)
  from 1(1) assms(2) have "memo_grows b' st st'" by (rule memo_grows_mono)
  then show ?thesis using 1(2-8) by (rule observed_growI)
qed

lemma observed_grow_local:
  assumes "memo st1 = memo st" and "prefix (heap st) (heap st1)"
    and "instrument (user st1) = instrument (user st)"
  shows "observed_grow b st st1"
proof (rule observed_growI[where s = "[]" and f = "[]"])
  show "memo_grows b st st1" using assms(1,2) by (simp add: memo_grows_def)
  show "started (user st1) = started (user st) @ []" using assms(3) by (simp add: instrument_def)
  show "finished (user st1) = finished (user st) @ []" using assms(3) by (simp add: instrument_def)
qed (simp_all add: assms(1))

lemma observed_grow_dag: "observed_grow b st st' \<Longrightarrow> dag (heap st) k \<Longrightarrow> dag (heap st') k"
  unfolding observed_grow_def by (blast intro: memo_grows_dag)

lemma rewrite_chain_observed_grow:
  "rewrite_chain instrument mut C st st' \<Longrightarrow>
   (\<And>c s r s'. c \<in> C \<Longrightarrow> dag (heap s) b \<Longrightarrow> mut c s = Inr (r, s') \<Longrightarrow> observed_grow b s s') \<Longrightarrow>
   dag (heap st) b \<Longrightarrow> observed_grow b st st'"
proof (induction rule: rewrite_chain.induct)
  case (rewrite_chain_done st)
  show ?case by (rule observed_grow_refl)
next
  case (rewrite_chain_child c st r st1 st')
  have 1: "observed_grow b st st1"
    using rewrite_chain_child.hyps(1) rewrite_chain_child.prems(2) rewrite_chain_child.hyps(2)
    by (rule rewrite_chain_child.prems(1))
  then have "dag (heap st1) b" using rewrite_chain_child.prems(2) by (rule observed_grow_dag)
  with rewrite_chain_child.IH rewrite_chain_child.prems(1) have "observed_grow b st1 st'" by blast
  with 1 show ?case by (rule observed_grow_trans)
next
  case (rewrite_chain_local st1 st st')
  have 1: "observed_grow b st st1"
    using rewrite_chain_local.hyps(1,2,3) by (rule observed_grow_local)
  then have "dag (heap st1) b" using rewrite_chain_local.prems(2) by (rule observed_grow_dag)
  with rewrite_chain_local.IH rewrite_chain_local.prems(1) have "observed_grow b st1 st'" by blast
  with 1 show ?case by (rule observed_grow_trans)
qed

lemma rewrite_chain_forget:
  "rewrite_chain obs mut C st st' \<Longrightarrow> rewrite_chain (\<lambda>u. ()) mut C st st'"
  by (induction rule: rewrite_chain.induct) (auto intro: rewrite_chain.intros)

lemma Instrumented_run:
  assumes "ExprFunctor_VisitExpr (Instrumented cls) mut e st = Inr (r, st2)"
  obtains st1 where
    "VisitExpr_node cls (VisitType cls) mut e (heap st ! e)
       (st\<lparr>user := (user st)\<lparr>started := started (user st) @ [e]\<rparr>\<rparr>) = Inr (r, st1)"
    and "st2 = st1\<lparr>user := (user st1)\<lparr>finished := finished (user st1) @ [(e, r)]\<rparr>\<rparr>"
proof -
  let ?h = "VisitExpr_node cls (VisitType cls) mut e (heap st ! e)
       (st\<lparr>user := (user st)\<lparr>started := started (user st) @ [e]\<rparr>\<rparr>)"
  from assms have
    "(case ?h of Inl err \<Rightarrow> Inl err
      | Inr (r, st1) \<Rightarrow>
          Inr (r, st1\<lparr>user := (user st1)\<lparr>finished := finished (user st1) @ [(e, r)]\<rparr>\<rparr>)) =
     Inr (r, st2)"
    by (cases "heap st ! e")
       (simp_all add: ExprFunctor_VisitExpr_def Instrumented_def split: if_splits)
  then show thesis
    by (cases ?h) (auto intro: that)
qed

lemma Instrumented_child_local:
  fixes cls :: "'a observed mutator_class"
  assumes "child_local obs cls"
  shows "child_local (\<lambda>u. ()) (Instrumented cls)"
  unfolding child_local_def
proof (intro allI impI)
  fix mut op nd and st :: "'a observed mstate" and r st2
  let ?sta = "st\<lparr>user := (user st)\<lparr>started := started (user st) @ [op]\<rparr>\<rparr>"
  let ?h = "VisitExpr_node cls (VisitType cls) mut op nd ?sta"
  assume "VisitExpr_node (Instrumented cls) (VisitType (Instrumented cls)) mut op nd st =
            Inr (r, st2)"
  then have "(case ?h of Inl err \<Rightarrow> Inl err
      | Inr (r, st1) \<Rightarrow>
          Inr (r, st1\<lparr>user := (user st1)\<lparr>finished := finished (user st1) @ [(op, r)]\<rparr>\<rparr>)) =
     Inr (r, st2)"
    by (simp add: Instrumented_def)
  then obtain st1 where h: "?h = Inr (r, st1)"
    and fin: "st2 = st1\<lparr>user := (user st1)\<lparr>finished := finished (user st1) @ [(op, r)]\<rparr>\<rparr>"
    by (cases ?h) auto
  have "rewrite_chain (\<lambda>u. ()) mut (set (children nd)) st ?sta"
    by (rule rewrite_chain_local1) simp_all
  moreover have "rewrite_chain (\<lambda>u. ()) mut (set (children nd)) ?sta st1"
    using child_localD[OF assms h] by (rule rewrite_chain_forget)
  moreover have "rewrite_chain (\<lambda>u. ()) mut (set (children nd)) st1 st2"
    unfolding fin by (rule rewrite_chain_local1) simp_all
  ultimately show "rewrite_chain (\<lambda>u. ()) mut (set (children nd)) st st2"
    by (blast intro: rewrite_chain_trans)
qed

lemma Mutate_observed_grow:
  assumes cl: "child_local instrument cls"
  shows "dag (heap st) (Suc e) \<Longrightarrow> Mutate (Instrumented cls) n e st = Inr (r, st') \<Longrightarrow>
         observed_grow (Suc e) st st'"
proof (induction n arbitrary: e st r st')
  case 0
  then show ?case by simp
next
  case (Suc n)
  let ?mut = "Mutate (Instrumented cls) n"
  have below: "observed_grow e s s'"
    if "c \<in> set (children (heap st ! e))" and d: "dag (heap s) e" and m: "?mut c s = Inr (r', s')"
    for c s r' s'
  proof -
    from Suc.prems(1) that(1) have c: "c < e" by (simp add: dag_def)
    with d have "dag (heap s) (Suc c)" by (simp add: dag_mono)
    then have "observed_grow (Suc c) s s'" using m by (rule Suc.IH)
    then show ?thesis using c by (simp add: observed_grow_mono)
  qed
  show ?case
  proof (cases "memo st e")
    case (Some it)
    with Suc.prems(2) have "st' = st" by (simp add: ExprMutator_VisitExpr_def)
    then show ?thesis by (simp add: observed_grow_refl)
  next
    case None
    let ?sta = "st\<lparr>user := (user st)\<lparr>started := started (user st) @ [e]\<rparr>\<rparr>"
    from Suc.prems(2) None obtain r1 st2 where
      d: "ExprFunctor_VisitExpr (Instrumented cls) ?mut e st = Inr (r1, st2)"
      and res: "r = r1" "st' = st2\<lparr>memo := (memo st2)(e \<mapsto> r1)\<rparr>"
      by (cases "ExprFunctor_VisitExpr (Instrumented cls) ?mut e st")
         (auto simp: ExprMutator_VisitExpr_def)
    from d obtain st1 where
      h: "VisitExpr_node cls (VisitType cls) ?mut e (heap st ! e) ?sta = Inr (r1, st1)"
      and fin: "st2 = st1\<lparr>user := (user st1)\<lparr>finished := finished (user st1) @ [(e, r1)]\<rparr>\<rparr>"
      by (rule Instrumented_run)
    from Suc.prems(1) have "dag (heap ?sta) e" by (simp add: dag_mono)
    with child_localD[OF cl h] below have "observed_grow e ?sta st1"
      by (rule rewrite_chain_observed_grow)
    then obtain s f where 1: "memo_grows e ?sta st1"
      "started (user st1) = (started (user st) @ [e]) @ s"
      "finished (user st1) = finished (user st) @ f"
      "distinct s" "set s = dom (memo st1) - dom (memo st)"
      "distinct (map fst f)" "set (map fst f) = dom (memo st1) - dom (memo st)"
      "\<forall>k v. (k, v) \<in> set f \<longrightarrow> memo st1 k = Some v"
      by (rule observed_growE) simp
    from 1(1) have p: "prefix (heap st) (heap st1)" by (simp add: memo_grows_def)
    from 1(1) have le: "memo st \<subseteq>\<^sub>m memo st1" by (simp add: memo_grows_def)
    from 1(1) have dm: "dom (memo st1) \<subseteq> dom (memo st) \<union> {..<e}" by (simp add: memo_grows_def)
    from None have e0: "e \<notin> dom (memo st)" by (simp add: domIff)
    with dm have e1: "e \<notin> dom (memo st1)" by auto
    from res fin have m': "memo st' = (memo st1)(e \<mapsto> r1)" and h': "heap st' = heap st1"
      and s': "started (user st') = started (user st1)"
      and f': "finished (user st') = finished (user st1) @ [(e, r1)]"
      by simp_all
    show ?thesis
    proof (rule observed_growI[where s = "e # s" and f = "f @ [(e, r1)]"])
      from e0 le have "memo st \<subseteq>\<^sub>m (memo st1)(e \<mapsto> r1)" by (auto simp: map_le_def)
      moreover from dm have "dom ((memo st1)(e \<mapsto> r1)) \<subseteq> dom (memo st) \<union> {..<Suc e}" by auto
      ultimately show "memo_grows (Suc e) st st'" using p m' h' by (simp add: memo_grows_def)
      show "started (user st') = started (user st) @ e # s" using s' 1(2) by simp
      show "finished (user st') = finished (user st) @ f @ [(e, r1)]" using f' 1(3) by simp
      show "distinct (e # s)" using 1(4,5) e1 by simp
      show "set (e # s) = dom (memo st') - dom (memo st)" using m' 1(5) e0 by auto
      show "distinct (map fst (f @ [(e, r1)]))" using 1(6,7) e1 by simp
      show "set (map fst (f @ [(e, r1)])) = dom (memo st') - dom (memo st)"
        using m' 1(7) e0 by auto
      show "\<forall>k v. (k, v) \<in> set (f @ [(e, r1)]) \<longrightarrow> memo st' k = Some v"
      proof (intro allI impI)
        fix k v assume "(k, v) \<in> set (f @ [(e, r1)])"
        then consider "(k, v) \<in> set f" | "k = e" "v = r1" by auto
        then show "memo st' k = Some v"
        proof cases
          case 1
          with \<open>\<forall>k v. (k, v) \<in> set f \<longrightarrow> memo st1 k = Some v\<close> have v: "memo st1 k = Some v"
            by blast
          with e1 have "k \<noteq> e" by auto
          with v m' show ?thesis by simp
        next
          case 2
          with m' show ?thesis by simp
        qed
      qed
    qed
  qed
qed

subsection \<open>The memo cache is append-only\<close>

text \<open>The runs of the statements below.\<close>

lemma dag_shared_graph: "dag shared_graph 4"
  by (auto simp: dag_def shared_graph_def eval_nat_numeral less_Suc_eq)

lemma dag_let_graph: "dag let_graph 5"
  by (auto simp: dag_def let_graph_def eval_nat_numeral less_Suc_eq)

lemma CountingMutator_child_local: "child_local (\<lambda>u. ()) CountingMutator"
  unfolding CountingMutator_def
  by (rule Observing_child_local) (simp_all add: hook_local_ExprMutator_VisitType)

lemma shared_run: "Mutate CountingMutator 3 3
      \<lparr>heap = shared_graph, next_array = 1, memo = [0 \<mapsto> 0, 1 \<mapsto> 1], user = 1\<rparr> =
    Inr (3, \<lparr>heap = shared_graph, next_array = 2,
             memo = [0 \<mapsto> 0, 1 \<mapsto> 1, 2 \<mapsto> 2, 3 \<mapsto> 3], user = 1\<rparr>)"
    by (simp add: eval_nat_numeral CountingMutator_def Observing_def shared_graph_def
        ExprMutator_VisitExpr_def ExprFunctor_VisitExpr_def
        ExprMutator_VisitExpr_Tuple_def ExprMutator_VisitExpr_TupleGetItem_def
        ExprMutator_VisitExpr_Constant_def Array_new_def push_back_def make_node_def)

lemma targeted_rebuild:
  "Mutate (Instrumented ReplaceConstant) 3 4
      (new_mutator let_graph 1 \<lparr>started = [], finished = [], own = ()\<rparr>) =
    Inr (6, \<lparr>heap = let_graph @ [ConstantNode 42, LetNode 0 5 3], next_array = 2,
             memo = [0 \<mapsto> 0, 1 \<mapsto> 5, 2 \<mapsto> 2, 3 \<mapsto> 3, 4 \<mapsto> 6],
             user = \<lparr>started = [4, 0, 1, 3, 2],
                     finished = [(0, 0), (1, 5), (2, 2), (3, 3), (4, 6)], own = ()\<rparr>\<rparr>)"
  by (simp add: eval_nat_numeral Instrumented_def ReplaceConstant_def let_graph_def
      new_mutator_def ExprMutator_VisitExpr_def ExprFunctor_VisitExpr_def
      ExprMutator_VisitExpr_Let_def ExprMutator_VisitExpr_Tuple_def
      ExprMutator_VisitExpr_Var_def Downcast_Var_def
      Array_new_def push_back_def make_node_def)

text \<open>
  The claim C9 as stated, for every pass, fails.  The instrumented re-entering pass on
  the store that holds \<open>Constant(1)\<close> alone: the nested call of \<^verbatim>\<open>Mutate\<close> on the
  Constant, made by the rewrite of that Constant, binds the Constant to itself; the outer
  call then returns with the Constant bound to the new node 1
  (\<^verbatim>\<open>memo_[expr] = new_expr\<close> assigns).  The binding \<open>0 \<mapsto> 0\<close> has been overwritten.
\<close>

theorem reentering_pass_overwrites_binding:
  "Mutate (Instrumented ReenteringMutator) 1 0
      \<lparr>heap = [ConstantNode 1], next_array = 0, memo = Map.empty,
       user = \<lparr>started = [0], finished = [], own = True\<rparr>\<rparr> =
    Inr (0, \<lparr>heap = [ConstantNode 1], next_array = 0, memo = [0 \<mapsto> 0],
             user = \<lparr>started = [0, 0], finished = [(0, 0)], own = True\<rparr>\<rparr>) \<and>
   Mutate (Instrumented ReenteringMutator) 2 0
      (new_mutator [ConstantNode 1] 0 \<lparr>started = [], finished = [], own = False\<rparr>) =
    Inr (1, \<lparr>heap = [ConstantNode 1, ConstantNode 1], next_array = 0, memo = [0 \<mapsto> 1],
             user = \<lparr>started = [0, 0], finished = [(0, 0), (0, 1)], own = True\<rparr>\<rparr>) \<and>
   \<not> ([0 \<mapsto> 0] :: ref \<rightharpoonup> ref) \<subseteq>\<^sub>m [0 \<mapsto> 1]"
  by (simp add: eval_nat_numeral Instrumented_def ReenteringMutator_def new_mutator_def
      ExprMutator_VisitExpr_def ExprFunctor_VisitExpr_def make_node_def map_le_def)

text \<open>
  C9, for the passes that reach the memo cache only through \<^verbatim>\<open>Mutate\<close> on the children
  of the node they rewrite (whatever results their rewrites return), on a store whose
  nodes reference only earlier nodes.  A call of \<open>Mutate\<close> that returns leaves every
  binding of the memo cache in place with its value; on a cache hit the whole state is
  unchanged, and on a miss the expression is bound to the result.  For the instrumented
  pass, which notes every kind-specific rewrite that returns with its result, just before
  \<^verbatim>\<open>VisitExpr\<close> binds it: the bindings made during the call, by the call itself and by
  the calls nested in it, are each for a key that was not bound before the call, no two
  of them are for the same key, and each is in the memo cache when the call returns, with
  the value it was made with.  So, if the memo cache held exactly the bindings noted
  before the call, each key once, it holds exactly the bindings noted after it, each key
  once: no binding is ever removed or overwritten.
\<close>

theorem memo_append_only:
  "(child_local obs cls \<longrightarrow> dag (heap st) (Suc expr) \<longrightarrow>
    Mutate cls n expr st = Inr (r, st') \<longrightarrow>
      memo st \<subseteq>\<^sub>m memo st' \<and>
      (\<forall>k v. memo st k = Some v \<longrightarrow> memo st' k = Some v) \<and>
      (expr \<in> dom (memo st) \<longrightarrow> st' = st) \<and>
      (expr \<notin> dom (memo st) \<longrightarrow> memo st' expr = Some r)) \<and>
   (child_local instrument icls \<longrightarrow> dag (heap ist) (Suc e) \<longrightarrow>
    Mutate (Instrumented icls) m e ist = Inr (ir, ist') \<longrightarrow>
      (\<exists>f. finished (user ist') = finished (user ist) @ f \<and>
           distinct (map fst f) \<and>
           set (map fst f) = dom (memo ist') - dom (memo ist) \<and>
           (\<forall>a b. (a, b) \<in> set f \<longrightarrow> memo ist' a = Some b)) \<and>
      ((\<forall>a b. memo ist a = Some b \<longleftrightarrow> (a, b) \<in> set (finished (user ist))) \<and>
       distinct (map fst (finished (user ist))) \<longrightarrow>
       (\<forall>a b. memo ist' a = Some b \<longleftrightarrow> (a, b) \<in> set (finished (user ist'))) \<and>
       distinct (map fst (finished (user ist')))))"
proof (intro conjI impI)
  assume cl: "child_local obs cls" and d: "dag (heap st) (Suc expr)"
    and m: "Mutate cls n expr st = Inr (r, st')"
  from cl d m have g: "memo_grows (Suc expr) st st'" by (rule Mutate_memo_grows)
  then show "memo st \<subseteq>\<^sub>m memo st'" by (simp add: memo_grows_def)
  from g show "\<forall>k v. memo st k = Some v \<longrightarrow> memo st' k = Some v"
    by (blast intro: memo_grows_kept)
  show "memo st' expr = Some r" if "expr \<notin> dom (memo st)"
    using m
    by (cases n) (auto simp: ExprMutator_VisitExpr_def split: option.splits sum.splits)
  show "st' = st" if "expr \<in> dom (memo st)"
  proof -
    from that obtain it where "memo st expr = Some it" by blast
    with m show ?thesis
      by (cases n) (simp_all add: ExprMutator_VisitExpr_def)
  qed
next
  assume cl: "child_local instrument icls" and d: "dag (heap ist) (Suc e)"
    and m: "Mutate (Instrumented icls) m e ist = Inr (ir, ist')"
  from cl d m have "observed_grow (Suc e) ist ist'" by (rule Mutate_observed_grow)
  then obtain s f where 1: "memo_grows (Suc e) ist ist'"
    "finished (user ist') = finished (user ist) @ f"
    "distinct (map fst f)" "set (map fst f) = dom (memo ist') - dom (memo ist)"
    "\<forall>k v. (k, v) \<in> set f \<longrightarrow> memo ist' k = Some v"
    by (rule observed_growE)
  from 1(2-5) show "\<exists>f. finished (user ist') = finished (user ist) @ f \<and>
           distinct (map fst f) \<and>
           set (map fst f) = dom (memo ist') - dom (memo ist) \<and>
           (\<forall>a b. (a, b) \<in> set f \<longrightarrow> memo ist' a = Some b)"
    by blast
  assume inv: "(\<forall>a b. memo ist a = Some b \<longleftrightarrow> (a, b) \<in> set (finished (user ist))) \<and>
       distinct (map fst (finished (user ist)))"
  then have keys: "set (map fst (finished (user ist))) = dom (memo ist)"
    by (auto simp: image_iff dom_def) (metis fst_conv)+
  show "\<forall>a b. memo ist' a = Some b \<longleftrightarrow> (a, b) \<in> set (finished (user ist'))"
  proof (intro allI iffI)
    fix a b assume ab: "memo ist' a = Some b"
    show "(a, b) \<in> set (finished (user ist'))"
    proof (cases "a \<in> dom (memo ist)")
      case True
      then obtain b' where b': "memo ist a = Some b'" by blast
      with 1(1) have "memo ist' a = Some b'" by (rule memo_grows_kept)
      with ab b' inv show ?thesis using 1(2) by simp
    next
      case False
      with ab 1(4) have "a \<in> set (map fst f)" by auto
      then obtain b' where b': "(a, b') \<in> set f" by auto
      with 1(5) ab have "b' = b" by auto
      with b' show ?thesis using 1(2) by simp
    qed
  next
    fix a b assume "(a, b) \<in> set (finished (user ist'))"
    with 1(2) consider "(a, b) \<in> set (finished (user ist))" | "(a, b) \<in> set f" by auto
    then show "memo ist' a = Some b"
    proof cases
      case 1
      with inv have "memo ist a = Some b" by blast
      with \<open>memo_grows (Suc e) ist ist'\<close> show ?thesis by (rule memo_grows_kept)
    next
      case 2
      with 1(5) show ?thesis by blast
    qed
  qed
  from inv keys 1(3,4) show "distinct (map fst (finished (user ist')))"
    unfolding 1(2) by auto
qed

theorem memo_append_only_witness:
  "child_local (\<lambda>u :: nat. ()) CountingMutator \<and>
   dag (heap \<lparr>heap = shared_graph, next_array = 1, memo = [0 \<mapsto> 0, 1 \<mapsto> 1], user = 1::nat\<rparr>)
     (Suc 3) \<and>
   Mutate CountingMutator 3 3
      \<lparr>heap = shared_graph, next_array = 1, memo = [0 \<mapsto> 0, 1 \<mapsto> 1], user = 1\<rparr> =
    Inr (3, \<lparr>heap = shared_graph, next_array = 2,
             memo = [0 \<mapsto> 0, 1 \<mapsto> 1, 2 \<mapsto> 2, 3 \<mapsto> 3], user = 1\<rparr>) \<and>
   ([0 \<mapsto> 0, 1 \<mapsto> 1] :: nat \<rightharpoonup> nat) \<subseteq>\<^sub>m [0 \<mapsto> 0, 1 \<mapsto> 1, 2 \<mapsto> 2, 3 \<mapsto> 3] \<and>
   child_local instrument (ReplaceConstant :: unit observed mutator_class) \<and>
   dag (heap (new_mutator let_graph 1 \<lparr>started = [], finished = [], own = ()\<rparr>)) (Suc 4) \<and>
   Mutate (Instrumented ReplaceConstant) 3 4
      (new_mutator let_graph 1 \<lparr>started = [], finished = [], own = ()\<rparr>) =
    Inr (6, \<lparr>heap = let_graph @ [ConstantNode 42, LetNode 0 5 3], next_array = 2,
             memo = [0 \<mapsto> 0, 1 \<mapsto> 5, 2 \<mapsto> 2, 3 \<mapsto> 3, 4 \<mapsto> 6],
             user = \<lparr>started = [4, 0, 1, 3, 2],
                     finished = [(0, 0), (1, 5), (2, 2), (3, 3), (4, 6)], own = ()\<rparr>\<rparr>) \<and>
   distinct (map fst [(0, 0), (1, 5), (2, 2), (3, 3), (4, 6 :: nat) :: nat \<times> nat]) \<and>
   ([0 \<mapsto> 0, 1 \<mapsto> 5, 2 \<mapsto> 2, 3 \<mapsto> 3, 4 \<mapsto> 6] :: nat \<rightharpoonup> nat) 1 = Some 5"
proof -
  let ?st = "\<lparr>heap = shared_graph, next_array = 1, memo = [0 \<mapsto> 0, 1 \<mapsto> 1], user = 1::nat\<rparr>"
  let ?ist = "new_mutator let_graph 1 \<lparr>started = [], finished = [], own = ()\<rparr>"
  let ?ist' = "\<lparr>heap = let_graph @ [ConstantNode 42, LetNode 0 5 3], next_array = 2,
             memo = [0 \<mapsto> 0, 1 \<mapsto> 5, 2 \<mapsto> 2, 3 \<mapsto> 3, 4 \<mapsto> 6],
             user = \<lparr>started = [4, 0, 1, 3, 2],
                     finished = [(0, 0), (1, 5), (2, 2), (3, 3), (4, 6)], own = ()\<rparr>\<rparr>"
  have d: "dag (heap ?st) (Suc 3)"
    using dag_shared_graph by (simp add: eval_nat_numeral)
  have d': "dag (heap ?ist) (Suc 4)"
    using dag_let_graph by (simp add: eval_nat_numeral new_mutator_def)
  note t = memo_append_only [where obs = "\<lambda>u :: nat. ()" and cls = CountingMutator
      and st = ?st and expr = 3 and n = 3 and r = 3
      and st' = "\<lparr>heap = shared_graph, next_array = 2,
             memo = [0 \<mapsto> 0, 1 \<mapsto> 1, 2 \<mapsto> 2, 3 \<mapsto> 3], user = 1\<rparr>"
      and icls = "ReplaceConstant :: unit observed mutator_class"
      and ist = ?ist and e = 4 and m = 3 and ir = 6 and ist' = ?ist']
  from t CountingMutator_child_local d shared_run
  have 1: "([0 \<mapsto> 0, 1 \<mapsto> 1] :: nat \<rightharpoonup> nat) \<subseteq>\<^sub>m [0 \<mapsto> 0, 1 \<mapsto> 1, 2 \<mapsto> 2, 3 \<mapsto> 3]"
    by (simp del: Mutate.simps)
  from t ReplaceConstant_child_local d' targeted_rebuild
  have 2: "distinct (map fst [(0, 0), (1, 5), (2, 2), (3, 3), (4, 6 :: nat) :: nat \<times> nat])"
    and 3: "([0 \<mapsto> 0, 1 \<mapsto> 5, 2 \<mapsto> 2, 3 \<mapsto> 3, 4 \<mapsto> 6] :: nat \<rightharpoonup> nat) 1 = Some 5"
    by (simp_all add: new_mutator_def del: Mutate.simps)
  from CountingMutator_child_local d shared_run 1 ReplaceConstant_child_local d'
    targeted_rebuild 2 3
  show ?thesis by (simp del: Mutate.simps)
qed

subsection \<open>The memo cache: each node is rewritten once\<close>

lemma shared_trace:
  "Mutate (Instrumented ExprMutator) 3 3
      (new_mutator shared_graph 1 \<lparr>started = [], finished = [], own = ()\<rparr>) =
     Inr (3, \<lparr>heap = shared_graph, next_array = 2,
              memo = [0 \<mapsto> 0, 1 \<mapsto> 1, 2 \<mapsto> 2, 3 \<mapsto> 3],
              user = \<lparr>started = [3, 1, 0, 2],
                      finished = [(0, 0), (1, 1), (2, 2), (3, 3)], own = ()\<rparr>\<rparr>)"
  by (simp add: eval_nat_numeral Instrumented_def ExprMutator_def shared_graph_def
      new_mutator_def ExprMutator_VisitExpr_def ExprFunctor_VisitExpr_def
      ExprMutator_VisitExpr_Tuple_def ExprMutator_VisitExpr_TupleGetItem_def
      ExprMutator_VisitExpr_Constant_def Array_new_def push_back_def make_node_def)

text \<open>
  The claim C1 as stated, for every mutator instance, fails.  The instrumented
  re-entering pass on the store that holds \<open>Constant(1)\<close> alone: the rewrite of the
  Constant calls \<^verbatim>\<open>Mutate\<close> on the Constant before \<^verbatim>\<open>VisitExpr\<close> has stored a result
  for it, so the kind-specific rewrite of the one node 0 runs twice in the pass.
\<close>

theorem reentering_pass_rewrites_twice:
  "Mutate (Instrumented ReenteringMutator) 2 0
      (new_mutator [ConstantNode 1] 0 \<lparr>started = [], finished = [], own = False\<rparr>) =
    Inr (1, \<lparr>heap = [ConstantNode 1, ConstantNode 1], next_array = 0, memo = [0 \<mapsto> 1],
             user = \<lparr>started = [0, 0], finished = [(0, 0), (0, 1)], own = True\<rparr>\<rparr>) \<and>
   \<not> distinct [0, 0 :: ref]"
  by (simp add: eval_nat_numeral Instrumented_def ReenteringMutator_def new_mutator_def
      ExprMutator_VisitExpr_def ExprFunctor_VisitExpr_def make_node_def)

text \<open>
  C1.  For every mutator class and every expression: a call of \<open>Mutate\<close> on an
  expression whose identity is in the memo cache returns the cached result and leaves the
  whole state as it is (no rewrite runs, no child is visited); a call that returns has
  stored its result under the expression's identity, so every later call on that state
  returns the same result and changes nothing.  For the passes that reach the memo cache
  only through \<^verbatim>\<open>Mutate\<close> on the children of the node they rewrite (whatever results
  their rewrites return), on a store whose nodes reference only earlier nodes: a result
  that is in the memo cache is still returned, without any rewrite, after any call of
  \<open>Mutate\<close> that returns; and the kind-specific rewrites that start during a call of
  \<open>Mutate\<close> that returns, which the instrumented pass notes, are those of exactly the
  identities that the call adds to the memo cache, each once.  So, if the started rewrites were those of the keys of the memo
  cache, each once, before the call, they are afterwards: no identity is rewritten twice
  in a pass.  On the graph
  \<open>root = Tuple([TupleGetItem(shared, 0), TupleGetItem(shared, 0)])\<close> the counting
  mutator returns the root and has counted exactly one Constant rewrite.
\<close>

theorem Mutate_memoised:
  "(memo st expr = Some it \<longrightarrow> Mutate cls (Suc n) expr st = Inr (it, st)) \<and>
   (Mutate cls n expr st = Inr (r, st') \<longrightarrow>
      memo st' expr = Some r \<and> (\<forall>m. Mutate cls (Suc m) expr st' = Inr (r, st'))) \<and>
   (child_local obs pcls \<longrightarrow> dag (heap ps) (Suc a) \<longrightarrow>
    Mutate pcls j a ps = Inr (pr, ps') \<longrightarrow>
      (\<forall>x v. memo ps x = Some v \<longrightarrow> (\<forall>m. Mutate pcls (Suc m) x ps' = Inr (v, ps')))) \<and>
   (child_local instrument icls \<longrightarrow> dag (heap ts) (Suc e) \<longrightarrow>
    Mutate (Instrumented icls) k e ts = Inr (r', ts') \<longrightarrow>
      (\<exists>s. started (user ts') = started (user ts) @ s \<and> distinct s \<and>
           set s = dom (memo ts') - dom (memo ts)) \<and>
      (distinct (started (user ts)) \<and> set (started (user ts)) = dom (memo ts) \<longrightarrow>
       distinct (started (user ts')) \<and> set (started (user ts')) = dom (memo ts'))) \<and>
   (case Mutate CountingMutator 3 3 (new_mutator shared_graph 1 0) of
      Inl err \<Rightarrow> False
    | Inr (r, st') \<Rightarrow> r = 3 \<and> user st' = 1 \<and> memo st' 0 = Some 0)"
proof -
  have hit: "\<And>st it n. memo st expr = Some it \<Longrightarrow> Mutate cls (Suc n) expr st = Inr (it, st)"
    by (simp add: ExprMutator_VisitExpr_def)
  have stored: "memo st' expr = Some r" if "Mutate cls n expr st = Inr (r, st')"
    using that
    by (cases n) (auto simp: ExprMutator_VisitExpr_def split: option.splits sum.splits)
  have kept: "\<forall>x v. memo ps x = Some v \<longrightarrow> (\<forall>m. Mutate pcls (Suc m) x ps' = Inr (v, ps'))"
    if cl: "child_local obs pcls" and d: "dag (heap ps) (Suc a)"
      and m: "Mutate pcls j a ps = Inr (pr, ps')"
  proof (intro allI impI)
    fix x v m'
    assume "memo ps x = Some v"
    with Mutate_memo_grows[OF cl d m] have "memo ps' x = Some v" by (rule memo_grows_kept)
    then show "Mutate pcls (Suc m') x ps' = Inr (v, ps')"
      by (simp add: ExprMutator_VisitExpr_def)
  qed
  have once: "(\<exists>s. started (user ts') = started (user ts) @ s \<and> distinct s \<and>
           set s = dom (memo ts') - dom (memo ts)) \<and>
      (distinct (started (user ts)) \<and> set (started (user ts)) = dom (memo ts) \<longrightarrow>
       distinct (started (user ts')) \<and> set (started (user ts')) = dom (memo ts'))"
    if cl: "child_local instrument icls" and d: "dag (heap ts) (Suc e)"
      and m: "Mutate (Instrumented icls) k e ts = Inr (r', ts')"
  proof -
    from cl d m have "observed_grow (Suc e) ts ts'" by (rule Mutate_observed_grow)
    then obtain s f where 1: "memo_grows (Suc e) ts ts'"
      "started (user ts') = started (user ts) @ s"
      "finished (user ts') = finished (user ts) @ f"
      "distinct s" "set s = dom (memo ts') - dom (memo ts)"
      by (rule observed_growE)
    from 1(2,4,5) have a: "\<exists>s. started (user ts') = started (user ts) @ s \<and> distinct s \<and>
           set s = dom (memo ts') - dom (memo ts)" by blast
    from memo_grows_dom[OF 1(1)] 1(2,4,5)
    have b: "distinct (started (user ts)) \<and> set (started (user ts)) = dom (memo ts) \<longrightarrow>
       distinct (started (user ts')) \<and> set (started (user ts')) = dom (memo ts')"
      by auto
    from a b show ?thesis ..
  qed
  have example: "case Mutate CountingMutator 3 3 (new_mutator shared_graph 1 0) of
      Inl err \<Rightarrow> False
    | Inr (r, st') \<Rightarrow> r = 3 \<and> user st' = 1 \<and> memo st' 0 = Some 0"
    by (simp add: eval_nat_numeral CountingMutator_def Observing_def shared_graph_def
        new_mutator_def ExprMutator_VisitExpr_def ExprFunctor_VisitExpr_def
        ExprMutator_VisitExpr_Tuple_def ExprMutator_VisitExpr_TupleGetItem_def
        ExprMutator_VisitExpr_Constant_def Array_new_def push_back_def make_node_def)
  show ?thesis using hit stored kept once example by blast
qed

theorem Mutate_memoised_witness:
  "child_local instrument (ExprMutator :: unit observed mutator_class) \<and>
   dag (heap (new_mutator shared_graph 1 \<lparr>started = [], finished = [], own = ()\<rparr>)) (Suc 3) \<and>
   Mutate (Instrumented ExprMutator) 3 3
      (new_mutator shared_graph 1 \<lparr>started = [], finished = [], own = ()\<rparr>) =
     Inr (3, \<lparr>heap = shared_graph, next_array = 2,
              memo = [0 \<mapsto> 0, 1 \<mapsto> 1, 2 \<mapsto> 2, 3 \<mapsto> 3],
              user = \<lparr>started = [3, 1, 0, 2],
                      finished = [(0, 0), (1, 1), (2, 2), (3, 3)], own = ()\<rparr>\<rparr>) \<and>
   distinct [3, 1, 0, 2 :: nat] \<and>
   Mutate (Instrumented ExprMutator) (Suc 0) 0
       \<lparr>heap = shared_graph, next_array = 2,
        memo = [0 \<mapsto> 0, 1 \<mapsto> 1, 2 \<mapsto> 2, 3 \<mapsto> 3],
        user = \<lparr>started = [3, 1, 0, 2],
                finished = [(0, 0), (1, 1), (2, 2), (3, 3)], own = ()\<rparr>\<rparr> =
     Inr (0, \<lparr>heap = shared_graph, next_array = 2,
              memo = [0 \<mapsto> 0, 1 \<mapsto> 1, 2 \<mapsto> 2, 3 \<mapsto> 3],
              user = \<lparr>started = [3, 1, 0, 2],
                      finished = [(0, 0), (1, 1), (2, 2), (3, 3)], own = ()\<rparr>\<rparr>) \<and>
   Mutate (Instrumented ExprMutator) (Suc 7) 3
       \<lparr>heap = shared_graph, next_array = 2,
        memo = [0 \<mapsto> 0, 1 \<mapsto> 1, 2 \<mapsto> 2, 3 \<mapsto> 3],
        user = \<lparr>started = [3, 1, 0, 2],
                finished = [(0, 0), (1, 1), (2, 2), (3, 3)], own = ()\<rparr>\<rparr> =
     Inr (3, \<lparr>heap = shared_graph, next_array = 2,
              memo = [0 \<mapsto> 0, 1 \<mapsto> 1, 2 \<mapsto> 2, 3 \<mapsto> 3],
              user = \<lparr>started = [3, 1, 0, 2],
                      finished = [(0, 0), (1, 1), (2, 2), (3, 3)], own = ()\<rparr>\<rparr>)"
proof -
  let ?st = "new_mutator shared_graph 1 \<lparr>started = [], finished = [], own = ()\<rparr>"
  let ?st' = "\<lparr>heap = shared_graph, next_array = 2,
              memo = [0 \<mapsto> 0, 1 \<mapsto> 1, 2 \<mapsto> 2, 3 \<mapsto> 3],
              user = \<lparr>started = [3, 1, 0, 2 :: nat],
                      finished = [(0, 0), (1, 1), (2, 2), (3, 3)], own = ()\<rparr>\<rparr>"
  have cl: "child_local instrument (ExprMutator :: unit observed mutator_class)"
    by (rule ExprMutator_child_local)
  have d: "dag (heap ?st) (Suc 3)"
    using dag_shared_graph by (simp add: eval_nat_numeral new_mutator_def)
  have 1: "distinct [3, 1, 0, 2 :: nat]"
    using Mutate_memoised [where icls = "ExprMutator :: unit observed mutator_class"
        and ts = ?st and e = 3 and k = 3 and r' = 3 and ts' = ?st',
        THEN conjunct2, THEN conjunct2, THEN conjunct2, THEN conjunct1] cl d shared_trace
    by (simp add: new_mutator_def del: Mutate.simps)
  have 2: "Mutate (Instrumented ExprMutator) (Suc 0) 0 ?st' = Inr (0, ?st')"
    using Mutate_memoised [where cls = "Instrumented ExprMutator" and st = ?st' and expr = 0
        and it = 0 and n = 0, THEN conjunct1]
    by (simp del: Mutate.simps)
  have "\<forall>m. Mutate (Instrumented ExprMutator) (Suc m) 3 ?st' = Inr (3, ?st')"
    using Mutate_memoised [where cls = "Instrumented ExprMutator" and st = ?st
        and expr = 3 and n = 3 and r = 3 and st' = ?st', THEN conjunct2, THEN conjunct1]
      shared_trace
    by (simp del: Mutate.simps)
  then have 3: "Mutate (Instrumented ExprMutator) (Suc 7) 3 ?st' = Inr (3, ?st')" by blast
  from cl d shared_trace 1 2 3 show ?thesis by (simp del: Mutate.simps)
qed

subsection \<open>The visitor processes each node once\<close>

text \<open>
  Every base callback is a chain of visits of the children of its node: with the default
  type hook it is the loop \<open>VisitExpr_each\<close> over the children, in the order of the
  callback.
\<close>

lemma visit_chain_trans:
  "visit_chain obs visit C st st1 \<Longrightarrow> visit_chain obs visit C st1 st2 \<Longrightarrow>
   visit_chain obs visit C st st2"
  by (induction rule: visit_chain.induct) (auto intro: visit_chain.intros)

lemma visit_chain_local1:
  "visit_counter st' = visit_counter st \<Longrightarrow> obs (visitor_user st') = obs (visitor_user st) \<Longrightarrow>
   visit_chain obs visit C st st'"
  by (blast intro: visit_chain.intros)

lemma VisitExpr_each_chain:
  "VisitExpr_each visit xs st = Inr st' \<Longrightarrow> set xs \<subseteq> C \<Longrightarrow> visit_chain obs visit C st st'"
proof (induction xs arbitrary: st)
  case Nil
  then show ?case by (simp add: visit_chain_done)
next
  case (Cons x xs)
  from Cons.prems(1) obtain st1 where step: "visit x st = Inr st1"
    by (cases "visit x st") auto
  with Cons.prems(1) have rest: "VisitExpr_each visit xs st1 = Inr st'" by simp
  from Cons.prems(2) have x: "x \<in> C" and xs: "set xs \<subseteq> C" by simp_all
  from x step Cons.IH[OF rest xs] show ?case by (rule visit_chain_child)
qed

lemma VisitExpr_each_append:
  "VisitExpr_each visit (xs @ ys) st =
     (case VisitExpr_each visit xs st of
        Inl err \<Rightarrow> Inl err
      | Inr st1 \<Rightarrow> VisitExpr_each visit ys st1)"
  by (induction xs arbitrary: st) (auto split: sum.splits)

lemma VisitType_each_default:
  "VisitType_each ExprVisitor_VisitType ts st = Inr st"
  by (induction ts) (simp_all add: ExprVisitor_VisitType_def)

lemma ExprVisitor_node_as_each:
  assumes "ExprVisitor_VisitExpr_node ExprVisitor_VisitType visit op nd st = Inr st'"
  shows "\<exists>xs. set xs = set (children nd) \<and> VisitExpr_each visit xs st = Inr st'"
proof (cases nd)
  case (VarNode name_hint t)
  with assms have "VisitExpr_each visit [] st = Inr st'"
    by (auto simp: ExprVisitor_VisitExpr_Var_def ExprVisitor_VisitType_def split: if_splits)
  with VarNode show ?thesis by (intro exI[of _ "[]"]) simp
next
  case (ConstantNode d)
  with assms show ?thesis
    by (intro exI[of _ "[]"]) (simp add: ExprVisitor_VisitExpr_Constant_def)
next
  case (GlobalVarNode g)
  with assms show ?thesis
    by (intro exI[of _ "[]"]) (simp add: ExprVisitor_VisitExpr_GlobalVar_def)
next
  case (OpNode name)
  with assms show ?thesis
    by (intro exI[of _ "[]"]) (simp add: ExprVisitor_VisitExpr_Op_def)
next
  case (TupleNode fs)
  with assms show ?thesis
    by (intro exI[of _ "array_data fs"]) (simp add: ExprVisitor_VisitExpr_Tuple_def)
next
  case (FunctionNode params body ret_type type_params a)
  with assms have "VisitExpr_each visit (array_data params @ [body]) st = Inr st'"
    by (auto simp: ExprVisitor_VisitExpr_Function_def VisitExpr_each_append split: sum.splits)
  with FunctionNode show ?thesis by (intro exI[of _ "array_data params @ [body]"]) simp
next
  case (CallNode f args a targs)
  with assms have "VisitExpr_each visit (f # array_data args) st = Inr st'"
    by (auto simp: ExprVisitor_VisitExpr_Call_def VisitType_each_default split: sum.splits)
  with CallNode show ?thesis by (intro exI[of _ "f # array_data args"]) simp
next
  case (LetNode var v body)
  with assms have "VisitExpr_each visit [v, var, body] st = Inr st'"
    by (auto simp: ExprVisitor_VisitExpr_Let_def split: sum.splits)
  with LetNode show ?thesis by (intro exI[of _ "[v, var, body]"]) auto
next
  case (IfNode c t f)
  with assms have "VisitExpr_each visit [c, t, f] st = Inr st'"
    by (auto simp: ExprVisitor_VisitExpr_If_def split: sum.splits)
  with IfNode show ?thesis by (intro exI[of _ "[c, t, f]"]) simp
next
  case (TupleGetItemNode t i)
  with assms have "VisitExpr_each visit [t] st = Inr st'"
    by (auto simp: ExprVisitor_VisitExpr_TupleGetItem_def split: sum.splits)
  with TupleGetItemNode show ?thesis by (intro exI[of _ "[t]"]) simp
next
  case (TypeVarNode name)
  with assms show ?thesis by simp
next
  case (OtherTypeNode k)
  with assms show ?thesis by simp
qed


lemma ExprVisitor_node_chain:
  assumes "ExprVisitor_VisitExpr_node ExprVisitor_VisitType visit op nd st = Inr st'"
  shows "visit_chain obs visit (set (children nd)) st st'"
proof -
  from ExprVisitor_node_as_each[OF assms] obtain xs where
    "set xs = set (children nd)" "VisitExpr_each visit xs st = Inr st'" by blast
  then show ?thesis by (simp add: VisitExpr_each_chain)
qed


lemma ObservingVisitor_child_local:
  assumes "\<And>op nd u. obs (f op nd u) = obs u"
  shows "visitor_child_local obs (ObservingVisitor f ExprVisitor_VisitType)"
  unfolding visitor_child_local_def
proof (intro allI impI)
  fix visit op nd st st'
  let ?cls = "ObservingVisitor f ExprVisitor_VisitType"
  assume "visitor_VisitExpr_node ?cls (visitor_VisitType ?cls) visit op nd st = Inr st'"
  then have "ExprVisitor_VisitExpr_node ExprVisitor_VisitType visit op nd
               (st\<lparr>visitor_user := f op nd (visitor_user st)\<rparr>) = Inr st'"
    by (simp add: ObservingVisitor_def)
  then have "visit_chain obs visit (set (children nd))
               (st\<lparr>visitor_user := f op nd (visitor_user st)\<rparr>) st'"
    by (rule ExprVisitor_node_chain)
  moreover have "visit_chain obs visit (set (children nd)) st
               (st\<lparr>visitor_user := f op nd (visitor_user st)\<rparr>)"
    by (rule visit_chain_local1) (simp_all add: assms)
  ultimately show "visit_chain obs visit (set (children nd)) st st'"
    by (rule visit_chain_trans[rotated])
qed




















subsection \<open>The traversals return on a store in construction order\<close>

text \<open>The base class is the observing pass that observes nothing.\<close>

lemma ExprMutator_Observing: "ExprMutator = Observing (\<lambda>op nd u. u) ExprMutator_VisitType"
  by (simp add: ExprMutator_def Observing_def)

lemma returns_belowD:
  "returns_below mut b \<Longrightarrow> c < b \<Longrightarrow> dag (heap st) b \<Longrightarrow> mut c st \<noteq> Inl OutOfFuel"
  unfolding returns_below_def by blast

lemma Mutate_each_returns:
  "returns_below mut b \<Longrightarrow> mutates_below mut b \<Longrightarrow> \<forall>x\<in>set xs. x < b \<Longrightarrow>
   dag (heap st) b \<Longrightarrow> Mutate_each mut xs acc flag st \<noteq> Inl OutOfFuel"
proof (induction xs arbitrary: acc flag st)
  case Nil
  show ?case by simp
next
  case (Cons x xs)
  from Cons.prems(3) have x: "x < b" and xs: "\<forall>x\<in>set xs. x < b" by simp_all
  show ?case
  proof (cases "mut x st")
    case (Inl err)
    with returns_belowD[OF Cons.prems(1) x Cons.prems(4)] show ?thesis by simp
  next
    case (Inr p)
    obtain y st1 where p: "p = (y, st1)" by (cases p)
    with Inr have m: "mut x st = Inr (y, st1)" by simp
    from mutates_belowD[OF Cons.prems(2) x Cons.prems(4) m] Cons.prems(4)
    have "dag (heap st1) b" by (rule memo_grows_dag)
    from Cons.IH[OF Cons.prems(1,2) xs this] m show ?thesis by simp
  qed
qed

lemma Function_params_returns:
  "returns_below mut b \<Longrightarrow> mutates_below mut b \<Longrightarrow> \<forall>x\<in>set xs. x < b \<Longrightarrow>
   dag (heap st) b \<Longrightarrow> Function_params mut xs acc flag st \<noteq> Inl OutOfFuel"
proof (induction xs arbitrary: acc flag st)
  case Nil
  show ?case by simp
next
  case (Cons x xs)
  from Cons.prems(3) have x: "x < b" and xs: "\<forall>x\<in>set xs. x < b" by simp_all
  show ?case
  proof (cases "mut x st")
    case (Inl err)
    with returns_belowD[OF Cons.prems(1) x Cons.prems(4)] show ?thesis by simp
  next
    case (Inr p)
    obtain y st1 where p: "p = (y, st1)" by (cases p)
    with Inr have m: "mut x st = Inr (y, st1)" by simp
    from mutates_belowD[OF Cons.prems(2) x Cons.prems(4) m] Cons.prems(4)
    have "dag (heap st1) b" by (rule memo_grows_dag)
    from Cons.IH[OF Cons.prems(1,2) xs this] m show ?thesis
      by (cases "is_Var (heap st1) y") (simp_all add: Downcast_Var_def is_Var_def split: node.splits)
  qed
qed

lemma mutate_step:
  assumes "returns_below mut b" and "mutates_below mut b" and "c < b" and "dag (heap st) b"
  obtains err where "mut c st = Inl err" and "err \<noteq> OutOfFuel"
  | r st1 where "mut c st = Inr (r, st1)" and "dag (heap st1) b"
proof (cases "mut c st")
  case (Inl err)
  with returns_belowD[OF assms(1,3,4)] have "err \<noteq> OutOfFuel" by auto
  with Inl show thesis by (rule that(1))
next
  case (Inr p)
  obtain r st1 where "p = (r, st1)" by (cases p)
  with Inr have m: "mut c st = Inr (r, st1)" by simp
  from mutates_belowD[OF assms(2,3,4) m] assms(4) have "dag (heap st1) b" by (rule memo_grows_dag)
  with m show thesis by (rule that(2))
qed

lemma hook_step:
  assumes "\<forall>t st. hook t st \<noteq> Inl OutOfFuel" and "hook_ok hook" and "dag (heap st) b"
  obtains err where "hook t st = Inl err" and "err \<noteq> OutOfFuel"
  | t' st1 where "hook t st = Inr (t', st1)" and "dag (heap st1) b"
proof (cases "hook t st")
  case (Inl err)
  with assms(1) have "err \<noteq> OutOfFuel" by auto
  with Inl show thesis by (rule that(1))
next
  case (Inr p)
  obtain t' st1 where "p = (t', st1)" by (cases p)
  with Inr have m: "hook t st = Inr (t', st1)" by simp
  from hook_memo_grows[OF assms(2) m] assms(3) have "dag (heap st1) b" by (rule memo_grows_dag)
  with m show thesis by (rule that(2))
qed

lemma Function_ty_params_returns:
  "\<forall>t st. hook t st \<noteq> Inl OutOfFuel \<Longrightarrow>
   Function_ty_params hook xs acc flag st \<noteq> Inl OutOfFuel"
proof (induction xs arbitrary: acc flag st)
  case Nil
  show ?case by simp
next
  case (Cons x xs)
  show ?case
  proof (cases "hook (Some x) st")
    case (Inl err)
    with Cons.prems show ?thesis by auto
  next
    case (Inr p)
    obtain t st1 where "p = (t, st1)" by (cases p)
    with Inr Cons.IH[OF Cons.prems] show ?thesis
      by (cases "Downcast_TypeVar t st1")
         (auto simp: Downcast_TypeVar_def split: option.splits if_splits node.splits)
  qed
qed

lemma Call_ty_args_returns:
  "\<forall>t st. hook t st \<noteq> Inl OutOfFuel \<Longrightarrow> Call_ty_args hook xs acc flag st \<noteq> Inl OutOfFuel"
proof (induction xs arbitrary: acc flag st)
  case Nil
  show ?case by simp
next
  case (Cons x xs)
  show ?case
  proof (cases "hook x st")
    case (Inl err)
    with Cons.prems show ?thesis by auto
  next
    case (Inr p)
    obtain t st1 where "p = (t, st1)" by (cases p)
    with Inr Cons.IH[OF Cons.prems] show ?thesis by simp
  qed
qed

lemma Downcast_Var_returns: "Downcast_Var r st \<noteq> Inl OutOfFuel"
  by (simp add: Downcast_Var_def split: node.splits)

lemma If_returns:
  assumes "returns_below mut b" and "mutates_below mut b" and "c < b" and "t < b" and "f < b"
    and "dag (heap st) b"
  shows "ExprMutator_VisitExpr_If mut op c t f st \<noteq> Inl OutOfFuel"
proof (rule mutate_step[OF assms(1,2,3,6)])
  fix err assume "mut c st = Inl err" "err \<noteq> OutOfFuel"
  then show ?thesis by (simp add: ExprMutator_VisitExpr_If_def)
next
  fix c' st1 assume m1: "mut c st = Inr (c', st1)" and d1: "dag (heap st1) b"
  show ?thesis
  proof (rule mutate_step[OF assms(1,2,4) d1])
    fix err assume "mut t st1 = Inl err" "err \<noteq> OutOfFuel"
    with m1 show ?thesis by (simp add: ExprMutator_VisitExpr_If_def)
  next
    fix t' st2 assume m2: "mut t st1 = Inr (t', st2)" and d2: "dag (heap st2) b"
    show ?thesis
    proof (rule mutate_step[OF assms(1,2,5) d2])
      fix err assume "mut f st2 = Inl err" "err \<noteq> OutOfFuel"
      with m1 m2 show ?thesis by (simp add: ExprMutator_VisitExpr_If_def)
    next
      fix f' st3 assume "mut f st2 = Inr (f', st3)"
      with m1 m2 show ?thesis by (simp add: ExprMutator_VisitExpr_If_def)
    qed
  qed
qed

lemma Let_returns:
  assumes "returns_below mut b" and "mutates_below mut b" and "var < b" and "v < b" and "body < b"
    and "dag (heap st) b"
  shows "ExprMutator_VisitExpr_Let mut op var v body st \<noteq> Inl OutOfFuel"
proof (rule mutate_step[OF assms(1,2,3,6)])
  fix err assume "mut var st = Inl err" "err \<noteq> OutOfFuel"
  then show ?thesis by (simp add: ExprMutator_VisitExpr_Let_def)
next
  fix r st1 assume m1: "mut var st = Inr (r, st1)" and d1: "dag (heap st1) b"
  show ?thesis
  proof (cases "Downcast_Var r st1")
    case (Inl err)
    with Downcast_Var_returns[of r st1] m1 show ?thesis
      by (simp add: ExprMutator_VisitExpr_Let_def)
  next
    case (Inr var')
    show ?thesis
    proof (rule mutate_step[OF assms(1,2,4) d1])
      fix err assume "mut v st1 = Inl err" "err \<noteq> OutOfFuel"
      with m1 Inr show ?thesis by (simp add: ExprMutator_VisitExpr_Let_def)
    next
      fix v' st2 assume m2: "mut v st1 = Inr (v', st2)" and d2: "dag (heap st2) b"
      show ?thesis
      proof (rule mutate_step[OF assms(1,2,5) d2])
        fix err assume "mut body st2 = Inl err" "err \<noteq> OutOfFuel"
        with m1 m2 Inr show ?thesis by (simp add: ExprMutator_VisitExpr_Let_def)
      next
        fix b' st3 assume "mut body st2 = Inr (b', st3)"
        with m1 m2 Inr show ?thesis by (simp add: ExprMutator_VisitExpr_Let_def)
      qed
    qed
  qed
qed

lemma TupleGetItem_returns:
  assumes "returns_below mut b" and "mutates_below mut b" and "t < b" and "dag (heap st) b"
  shows "ExprMutator_VisitExpr_TupleGetItem mut op t i st \<noteq> Inl OutOfFuel"
proof (rule mutate_step[OF assms])
  fix err assume "mut t st = Inl err" "err \<noteq> OutOfFuel"
  then show ?thesis by (simp add: ExprMutator_VisitExpr_TupleGetItem_def)
next
  fix t' st1 assume "mut t st = Inr (t', st1)"
  then show ?thesis by (simp add: ExprMutator_VisitExpr_TupleGetItem_def)
qed

lemma Tuple_returns:
  assumes "returns_below mut b" and "mutates_below mut b"
    and "\<forall>x\<in>set (array_data fs). x < b" and "dag (heap st) b"
  shows "ExprMutator_VisitExpr_Tuple mut op fs st \<noteq> Inl OutOfFuel"
proof -
  let ?st0 = "st\<lparr>next_array := Suc (next_array st)\<rparr>"
  from assms(4) have "dag (heap ?st0) b" by simp
  from Mutate_each_returns[OF assms(1,2,3) this]
  have "Mutate_each mut (array_data fs) (Array (next_array st) []) True ?st0 \<noteq> Inl OutOfFuel" .
  then show ?thesis
    by (cases "Mutate_each mut (array_data fs) (Array (next_array st) []) True ?st0")
       (auto simp: ExprMutator_VisitExpr_Tuple_def Array_new_def split: if_splits)
qed

lemma Var_returns:
  assumes "\<forall>t st. hook t st \<noteq> Inl OutOfFuel"
  shows "ExprMutator_VisitExpr_Var hook op name_hint t st \<noteq> Inl OutOfFuel"
  using assms
  by (cases "hook t st") (auto simp: ExprMutator_VisitExpr_Var_def split: if_splits)

lemma Call_returns:
  assumes "returns_below mut b" and "mutates_below mut b"
    and "\<forall>t st. hook t st \<noteq> Inl OutOfFuel" and "hook_ok hook" and "f < b"
    and "\<forall>x\<in>set (array_data args). x < b" and "dag (heap st) b"
  shows "ExprMutator_VisitExpr_Call hook mut op f args a targs st \<noteq> Inl OutOfFuel"
proof (rule mutate_step[OF assms(1,2,5,7)])
  fix err assume "mut f st = Inl err" "err \<noteq> OutOfFuel"
  then show ?thesis by (simp add: ExprMutator_VisitExpr_Call_def)
next
  fix f' st1 assume m: "mut f st = Inr (f', st1)" and d1: "dag (heap st1) b"
  let ?st2 = "st1\<lparr>next_array := Suc (next_array st1)\<rparr>"
  let ?tl = "Call_ty_args hook (array_data targs) (Array (next_array st1) []) (f = f') ?st2"
  show ?thesis
  proof (cases ?tl)
    case (Inl err)
    with Call_ty_args_returns[OF assms(3), of "array_data targs"] m show ?thesis
      by (auto simp: ExprMutator_VisitExpr_Call_def Array_new_def)
  next
    case (Inr p)
    obtain tacc flag st3 where p: "p = (tacc, flag, st3)" by (cases p)
    with Inr have tl: "?tl = Inr (tacc, flag, st3)" by simp
    let ?st4 = "st3\<lparr>next_array := Suc (next_array st3)\<rparr>"
    from d1 have "dag (heap ?st2) b" by simp
    with Call_ty_args_memo_grows[OF tl assms(4)] have "dag (heap st3) b"
      by (rule memo_grows_dag)
    then have "dag (heap ?st4) b" by simp
    from Mutate_each_returns[OF assms(1,2,6) this]
    have "Mutate_each mut (array_data args) (Array (next_array st3) []) flag ?st4 \<noteq> Inl OutOfFuel" .
    with m tl show ?thesis
      by (cases "Mutate_each mut (array_data args) (Array (next_array st3) []) flag ?st4")
         (auto simp: ExprMutator_VisitExpr_Call_def Array_new_def split: if_splits)
  qed
qed

lemma Function_returns:
  assumes "returns_below mut b" and "mutates_below mut b"
    and "\<forall>t st. hook t st \<noteq> Inl OutOfFuel" and "hook_ok hook" and "body < b"
    and "\<forall>x\<in>set (array_data params). x < b" and "dag (heap st) b"
  shows "ExprMutator_VisitExpr_Function hook mut op params body ret_type type_params a st \<noteq>
           Inl OutOfFuel"
proof -
  let ?st0 = "st\<lparr>next_array := Suc (next_array st)\<rparr>"
  let ?tl = "Function_ty_params hook (array_data type_params) (Array (next_array st) []) True ?st0"
  show ?thesis
  proof (cases ?tl)
    case (Inl err)
    with Function_ty_params_returns[OF assms(3), of "array_data type_params"] show ?thesis
      by (auto simp: ExprMutator_VisitExpr_Function_def Array_new_def)
  next
    case (Inr p)
    obtain tps f1 st1 where "p = (tps, f1, st1)" by (cases p)
    with Inr have tl: "?tl = Inr (tps, f1, st1)" by simp
    let ?st2 = "st1\<lparr>next_array := Suc (next_array st1)\<rparr>"
    let ?pl = "Function_params mut (array_data params) (Array (next_array st1) []) True ?st2"
    from assms(7) have "dag (heap ?st0) b" by simp
    with Function_ty_params_memo_grows[OF tl assms(4)] have "dag (heap st1) b"
      by (rule memo_grows_dag)
    then have d2: "dag (heap ?st2) b" by simp
    show ?thesis
    proof (cases ?pl)
      case (Inl err)
      with Function_params_returns[OF assms(1,2,6) d2] tl show ?thesis
        by (auto simp: ExprMutator_VisitExpr_Function_def Array_new_def)
    next
      case (Inr q)
      obtain ps f2 st3 where "q = (ps, f2, st3)" by (cases q)
      with Inr have pl: "?pl = Inr (ps, f2, st3)" by simp
      from Function_params_memo_grows[OF pl assms(2,6) d2] d2 have d3: "dag (heap st3) b"
        by (rule memo_grows_dag)
      show ?thesis
      proof (rule hook_step[OF assms(3,4) d3, of ret_type])
        fix err assume "hook ret_type st3 = Inl err" "err \<noteq> OutOfFuel"
        with tl pl show ?thesis
          by (simp add: ExprMutator_VisitExpr_Function_def Array_new_def)
      next
        fix rt st4 assume h: "hook ret_type st3 = Inr (rt, st4)" and d4: "dag (heap st4) b"
        show ?thesis
        proof (rule mutate_step[OF assms(1,2,5) d4])
          fix err assume "mut body st4 = Inl err" "err \<noteq> OutOfFuel"
          with tl pl h show ?thesis
            by (simp add: ExprMutator_VisitExpr_Function_def Array_new_def)
        next
          fix b' st5 assume "mut body st4 = Inr (b', st5)"
          with tl pl h show ?thesis
            by (simp add: ExprMutator_VisitExpr_Function_def Array_new_def)
        qed
      qed
    qed
  qed
qed

lemma VisitExpr_node_returns:
  assumes "returns_below mut b" and "mutates_below mut b"
    and "\<forall>t st. hook t st \<noteq> Inl OutOfFuel" and "hook_ok hook"
    and "\<forall>c\<in>set (children nd). c < b" and "dag (heap st) b"
  shows "ExprMutator_VisitExpr_node hook mut op nd st \<noteq> Inl OutOfFuel"
proof (cases nd)
  case (VarNode name_hint t)
  with assms(3) show ?thesis by (simp add: Var_returns)
next
  case (ConstantNode d)
  then show ?thesis by (simp add: ExprMutator_VisitExpr_Constant_def)
next
  case (GlobalVarNode g)
  then show ?thesis by (simp add: ExprMutator_VisitExpr_GlobalVar_def)
next
  case (OpNode name)
  then show ?thesis by (simp add: ExprMutator_VisitExpr_Op_def)
next
  case (TupleNode fs)
  with assms show ?thesis by (simp add: Tuple_returns)
next
  case (FunctionNode params body ret_type type_params a)
  with assms(5) have "body < b" "\<forall>x\<in>set (array_data params). x < b" by simp_all
  with FunctionNode assms(1-4,6) show ?thesis by (simp add: Function_returns)
next
  case (CallNode f args a targs)
  with assms(5) have "f < b" "\<forall>x\<in>set (array_data args). x < b" by simp_all
  with CallNode assms(1-4,6) show ?thesis by (simp add: Call_returns)
next
  case (LetNode var v body)
  with assms show ?thesis by (simp add: Let_returns)
next
  case (IfNode c t f)
  with assms show ?thesis by (simp add: If_returns)
next
  case (TupleGetItemNode t i)
  with assms show ?thesis by (simp add: TupleGetItem_returns)
next
  case (TypeVarNode name)
  then show ?thesis by simp
next
  case (OtherTypeNode k)
  then show ?thesis by simp
qed

lemma Observing_rewrites_through_children:
  "hook_ok hook \<Longrightarrow> child_local (\<lambda>u. ()) (Observing f hook)"
  by (rule Observing_child_local) (simp_all add: hook_ok_local)

text \<open>
  On a store whose nodes reference only earlier nodes the recursion of \<open>Mutate\<close> is never
  deeper than the reference it starts from: with that much stack every call returns, with
  a result or with \<open>Fatal\<close>.
\<close>

lemma Mutate_returns:
  fixes hook :: "'u type_fn"
  assumes "hook_ok hook" and "\<forall>t st. hook t st \<noteq> Inl OutOfFuel"
  shows "dag (heap st) (Suc e) \<Longrightarrow> e < n \<Longrightarrow> Mutate (Observing f hook) n e st \<noteq> Inl OutOfFuel"
proof (induction n arbitrary: e st)
  case 0
  then show ?case by simp
next
  case (Suc n)
  let ?mut = "Mutate (Observing f hook) n"
  have ret: "returns_below ?mut e"
    unfolding returns_below_def
  proof (intro allI impI)
    fix c and s :: "'u mstate"
    assume c: "c < e" and d: "dag (heap s) e"
    from d c have "dag (heap s) (Suc c)" by (simp add: dag_mono)
    moreover from c Suc.prems(2) have "c < n" by simp
    ultimately show "?mut c s \<noteq> Inl OutOfFuel" by (rule Suc.IH)
  qed
  have below: "mutates_below ?mut e"
    using Observing_rewrites_through_children[OF assms(1)] by (rule Mutate_mutates_below)
  let ?sta = "st\<lparr>user := f e (heap st ! e) (user st)\<rparr>"
  from Suc.prems(1) have len: "e < length (heap st)" by (simp add: dag_def)
  from Suc.prems(1) have ch: "\<forall>c\<in>set (children (heap st ! e)). c < e" by (simp add: dag_def)
  from Suc.prems(1) have "dag (heap ?sta) e" by (simp add: dag_mono)
  with ret below assms(2,1) ch
  have h: "ExprMutator_VisitExpr_node hook ?mut e (heap st ! e) ?sta \<noteq> Inl OutOfFuel"
    by (rule VisitExpr_node_returns)
  from len h have "ExprFunctor_VisitExpr (Observing f hook) ?mut e st \<noteq> Inl OutOfFuel"
    by (cases "heap st ! e") (simp_all add: ExprFunctor_VisitExpr_def Observing_def)
  then show ?case
    by (cases "ExprFunctor_VisitExpr (Observing f hook) ?mut e st")
       (auto simp: ExprMutator_VisitExpr_def split: option.splits)
qed

lemma visit_returns_belowD:
  "visit_returns_below visit b \<Longrightarrow> c < b \<Longrightarrow> visit c st \<noteq> Inl OutOfFuel"
  unfolding visit_returns_below_def by blast

lemma VisitExpr_each_returns:
  "visit_returns_below visit b \<Longrightarrow> \<forall>x\<in>set xs. x < b \<Longrightarrow>
   VisitExpr_each visit xs st \<noteq> Inl OutOfFuel"
proof (induction xs arbitrary: st)
  case Nil
  show ?case by simp
next
  case (Cons x xs)
  from Cons.prems(2) have x: "x < b" and xs: "\<forall>x\<in>set xs. x < b" by simp_all
  from visit_returns_belowD[OF Cons.prems(1) x, of st] Cons.IH[OF Cons.prems(1) xs]
  show ?case by (cases "visit x st") auto
qed

lemma VisitType_each_returns:
  "\<forall>t st. hook t st \<noteq> Inl OutOfFuel \<Longrightarrow> VisitType_each hook ts st \<noteq> Inl OutOfFuel"
proof (induction ts arbitrary: st)
  case Nil
  show ?case by simp
next
  case (Cons t ts)
  from Cons.prems Cons.IH[OF Cons.prems] show ?case by (cases "hook t st") auto
qed

lemma ExprVisitor_node_returns:
  assumes "visit_returns_below visit b" and "\<forall>t st. hook t st \<noteq> Inl OutOfFuel"
    and "\<forall>c\<in>set (children nd). c < b"
  shows "ExprVisitor_VisitExpr_node hook visit op nd st \<noteq> Inl OutOfFuel"
proof (cases nd)
  case (VarNode name_hint t)
  with assms(2) show ?thesis by (simp add: ExprVisitor_VisitExpr_Var_def)
next
  case (ConstantNode d)
  then show ?thesis by (simp add: ExprVisitor_VisitExpr_Constant_def)
next
  case (GlobalVarNode g)
  then show ?thesis by (simp add: ExprVisitor_VisitExpr_GlobalVar_def)
next
  case (OpNode name)
  then show ?thesis by (simp add: ExprVisitor_VisitExpr_Op_def)
next
  case (TupleNode fs)
  with assms(3) have "\<forall>x\<in>set (array_data fs). x < b" by simp
  with TupleNode assms(1) show ?thesis
    by (simp add: ExprVisitor_VisitExpr_Tuple_def VisitExpr_each_returns)
next
  case (FunctionNode params body ret_type type_params a)
  with assms(3) have c: "body < b" "\<forall>x\<in>set (array_data params). x < b" by simp_all
  from VisitExpr_each_returns[OF assms(1) c(2), of st]
    visit_returns_belowD[OF assms(1) c(1)] FunctionNode
  show ?thesis
    by (cases "VisitExpr_each visit (array_data params) st")
       (auto simp: ExprVisitor_VisitExpr_Function_def)
next
  case (CallNode f args a targs)
  with assms(3) have c: "f < b" "\<forall>x\<in>set (array_data args). x < b" by simp_all
  show ?thesis
  proof (cases "visit f st")
    case (Inl err)
    with visit_returns_belowD[OF assms(1) c(1), of st] CallNode show ?thesis
      by (auto simp: ExprVisitor_VisitExpr_Call_def)
  next
    case (Inr st1)
    with VisitType_each_returns[OF assms(2), of "array_data targs" st1]
      VisitExpr_each_returns[OF assms(1) c(2)] CallNode
    show ?thesis
      by (cases "VisitType_each hook (array_data targs) st1")
         (auto simp: ExprVisitor_VisitExpr_Call_def)
  qed
next
  case (LetNode var v body)
  with assms(3) have c: "var < b" "v < b" "body < b" by simp_all
  note r = visit_returns_belowD[OF assms(1)]
  show ?thesis
  proof (cases "visit v st")
    case (Inl err)
    with r[OF c(2), of st] LetNode show ?thesis by (auto simp: ExprVisitor_VisitExpr_Let_def)
  next
    case (Inr st1)
    with r[OF c(1), of st1] r[OF c(3)] LetNode show ?thesis
      by (cases "visit var st1") (auto simp: ExprVisitor_VisitExpr_Let_def)
  qed
next
  case (IfNode c t f)
  with assms(3) have ch: "c < b" "t < b" "f < b" by simp_all
  note r = visit_returns_belowD[OF assms(1)]
  show ?thesis
  proof (cases "visit c st")
    case (Inl err)
    with r[OF ch(1), of st] IfNode show ?thesis by (auto simp: ExprVisitor_VisitExpr_If_def)
  next
    case (Inr st1)
    with r[OF ch(2), of st1] r[OF ch(3)] IfNode show ?thesis
      by (cases "visit t st1") (auto simp: ExprVisitor_VisitExpr_If_def)
  qed
next
  case (TupleGetItemNode t i)
  with assms(3) have "t < b" by simp
  from visit_returns_belowD[OF assms(1) this] TupleGetItemNode show ?thesis
    by (simp add: ExprVisitor_VisitExpr_TupleGetItem_def)
next
  case (TypeVarNode name)
  then show ?thesis by simp
next
  case (OtherTypeNode k)
  then show ?thesis by simp
qed

text \<open>The same for the visitor.\<close>

lemma VisitExpr_returns:
  fixes hook :: "'u vtype_fn"
  assumes "\<forall>t st. hook t st \<noteq> Inl OutOfFuel"
  shows "dag H (Suc e) \<Longrightarrow> e < n \<Longrightarrow>
         VisitExpr (ObservingVisitor f hook) H n e st \<noteq> Inl OutOfFuel"
proof (induction n arbitrary: e st)
  case 0
  then show ?case by simp
next
  case (Suc n)
  let ?visit = "VisitExpr (ObservingVisitor f hook) H n"
  have ret: "visit_returns_below ?visit e"
    unfolding visit_returns_below_def
  proof (intro allI impI)
    fix c and s :: "'u vstate"
    assume c: "c < e"
    with Suc.prems(1) have "dag H (Suc c)" by (simp add: dag_def)
    moreover from c Suc.prems(2) have "c < n" by simp
    ultimately show "?visit c s \<noteq> Inl OutOfFuel" by (rule Suc.IH)
  qed
  let ?sta = "st\<lparr>visitor_user := f e (H ! e) (visitor_user st)\<rparr>"
  from Suc.prems(1) have len: "e < length H" by (simp add: dag_def)
  from Suc.prems(1) have ch: "\<forall>c\<in>set (children (H ! e)). c < e" by (simp add: dag_def)
  from ret assms ch
  have h: "ExprVisitor_VisitExpr_node hook ?visit e (H ! e) ?sta \<noteq> Inl OutOfFuel"
    by (rule ExprVisitor_node_returns)
  from len h have "TParent_VisitExpr (ObservingVisitor f hook) H ?visit e st \<noteq> Inl OutOfFuel"
    by (cases "H ! e") (simp_all add: TParent_VisitExpr_def ObservingVisitor_def)
  then show ?case
    by (cases "TParent_VisitExpr (ObservingVisitor f hook) H ?visit e st")
       (auto simp: ExprVisitor_VisitExpr_def split: option.splits)
qed

text \<open>The same for the instrumented passes with the base rewrites and the base callbacks.\<close>

lemma Instrumented_mutates_below:
  assumes "child_local instrument cls"
  shows "mutates_below (Mutate (Instrumented cls) n) b"
  unfolding mutates_below_def
proof (intro allI impI)
  fix c st r st'
  assume c: "c < b" and d: "dag (heap st) b"
    and m: "Mutate (Instrumented cls) n c st = Inr (r, st')"
  from d c have "dag (heap st) (Suc c)" by (simp add: dag_mono)
  with assms have "observed_grow (Suc c) st st'" using m by (rule Mutate_observed_grow)
  then have "memo_grows (Suc c) st st'" by (simp add: observed_grow_def)
  then show "memo_grows b st st'" using c by (simp add: memo_grows_mono)
qed

lemma dispatch_returns:
  assumes "VisitExpr_node cls (VisitType cls) mut e (heap st ! e) st \<noteq> Inl OutOfFuel"
  shows "ExprFunctor_VisitExpr cls mut e st \<noteq> Inl OutOfFuel"
  using assms by (cases "heap st ! e") (simp_all add: ExprFunctor_VisitExpr_def)

lemma Instrumented_handler_returns:
  assumes "VisitExpr_node cls (VisitType cls) mut op nd
             (st\<lparr>user := (user st)\<lparr>started := started (user st) @ [op]\<rparr>\<rparr>) \<noteq> Inl OutOfFuel"
  shows "VisitExpr_node (Instrumented cls) (VisitType (Instrumented cls)) mut op nd st \<noteq>
           Inl OutOfFuel"
proof (cases "VisitExpr_node cls (VisitType cls) mut op nd
             (st\<lparr>user := (user st)\<lparr>started := started (user st) @ [op]\<rparr>\<rparr>)")
  case (Inl err)
  with assms show ?thesis by (simp add: Instrumented_def)
next
  case (Inr p)
  then show ?thesis by (cases p) (simp add: Instrumented_def)
qed

lemma Instrumented_Mutate_returns:
  fixes hook :: "'a observed type_fn"
  assumes hl: "hook_local instrument hook" and "\<forall>t st. hook t st \<noteq> Inl OutOfFuel"
    and f: "\<And>op nd u. instrument (f op nd u) = instrument u"
  shows "dag (heap st) (Suc e) \<Longrightarrow> e < n \<Longrightarrow>
         Mutate (Instrumented (Observing f hook)) n e st \<noteq> Inl OutOfFuel"
proof (induction n arbitrary: e st)
  case 0
  then show ?case by simp
next
  case (Suc n)
  let ?cls = "Instrumented (Observing f hook)"
  let ?mut = "Mutate ?cls n"
  have ret: "returns_below ?mut e"
    unfolding returns_below_def
  proof (intro allI impI)
    fix c and s :: "'a observed mstate"
    assume c: "c < e" and d: "dag (heap s) e"
    from d c have "dag (heap s) (Suc c)" by (simp add: dag_mono)
    moreover from c Suc.prems(2) have "c < n" by simp
    ultimately show "?mut c s \<noteq> Inl OutOfFuel" by (rule Suc.IH)
  qed
  have "child_local instrument (Observing f hook)"
  proof (rule Observing_child_local)
    show "hook_local instrument hook" by (rule hl)
    show "instrument (f op nd u) = instrument u" for op nd u by (rule f)
  qed
  then have below: "mutates_below ?mut e" by (rule Instrumented_mutates_below)
  from hl have ok: "hook_ok hook" by (simp add: hook_local_def hook_ok_def)
  define sta where "sta = st\<lparr>user := (user st)\<lparr>started := started (user st) @ [e]\<rparr>\<rparr>"
  define stb where "stb = sta\<lparr>user := f e (heap st ! e) (user sta)\<rparr>"
  from Suc.prems(1) have ch: "\<forall>c\<in>set (children (heap st ! e)). c < e" by (simp add: dag_def)
  from Suc.prems(1) have "dag (heap stb) e" by (simp add: dag_mono sta_def stb_def)
  with ret below assms(2) ok ch
  have "ExprMutator_VisitExpr_node hook ?mut e (heap st ! e) stb \<noteq> Inl OutOfFuel"
    by (rule VisitExpr_node_returns)
  then have "VisitExpr_node (Observing f hook) (VisitType (Observing f hook)) ?mut e
               (heap st ! e) sta \<noteq> Inl OutOfFuel"
    by (simp add: Observing_def stb_def)
  then have "VisitExpr_node ?cls (VisitType ?cls) ?mut e (heap st ! e) st \<noteq> Inl OutOfFuel"
    unfolding sta_def by (rule Instrumented_handler_returns)
  then have "ExprFunctor_VisitExpr ?cls ?mut e st \<noteq> Inl OutOfFuel"
    by (rule dispatch_returns)
  then show ?case
    by (cases "ExprFunctor_VisitExpr ?cls ?mut e st")
       (auto simp: ExprMutator_VisitExpr_def split: option.splits)
qed

lemma InstrumentedVisitor_ExprVisitor:
  "InstrumentedVisitor ExprVisitor =
     ObservingVisitor (\<lambda>op nd u. (fst u @ [op], snd u)) ExprVisitor_VisitType"
  by (simp add: InstrumentedVisitor_def ObservingVisitor_def ExprVisitor_def)

lemma InstrumentedVisitor_returns:
  "dag H (Suc e) \<Longrightarrow> e < n \<Longrightarrow>
   VisitExpr (InstrumentedVisitor ExprVisitor) H n e st \<noteq> Inl OutOfFuel"
  unfolding InstrumentedVisitor_ExprVisitor
  by (rule VisitExpr_returns) (simp_all add: ExprVisitor_VisitType_def)

end
